theory Spec2Isabelle
  imports Complex_Main
begin

section \<open>Orchestration tier: the model of thinkmesh\_core/orchestration/orchestrator.py\<close>

text \<open>
  A Python float is modelled as the real number it denotes. Float arithmetic rounds, and
  rounding can break or make a tie between two ranking keys and move a sum across a
  threshold. The arithmetic behind the ranking keys, the adaptive scores and the
  complexity score therefore goes through a record of operations that the model takes as
  a parameter: the theorems hold for every such record, the one of IEEE doubles
  included (an operation may round its arguments first, so that a decimal constant of
  the source stands for the double nearest to it). NaN and the infinities are not
  modelled. The clamped update of \<open>performance_score\<close> and the step counts of the
  simulated executors are written with exact arithmetic. Python ints are unbounded and
  are modelled as \<open>int\<close>.
\<close>

record float_ops =
  fl_add :: "real \<Rightarrow> real \<Rightarrow> real"
  fl_sub :: "real \<Rightarrow> real \<Rightarrow> real"
  fl_mul :: "real \<Rightarrow> real \<Rightarrow> real"
  fl_div :: "real \<Rightarrow> real \<Rightarrow> real"
  fl_sum :: "real list \<Rightarrow> real"

text \<open>
  The operations without rounding. They give what float arithmetic gives wherever the
  exact result is itself a float.
\<close>

definition exact_ops :: float_ops where
  "exact_ops = \<lparr>fl_add = (+), fl_sub = (-), fl_mul = (*), fl_div = (/), fl_sum = sum_list\<rparr>"

datatype OrchestrationStrategy =
  SEQUENTIAL | PARALLEL | HIERARCHICAL | CONSENSUS | COMPETITIVE | COLLABORATIVE | ADAPTIVE

datatype TaskPriority = CRITICAL | HIGH | NORMAL | LOW | BACKGROUND

text \<open>The exceptions that the modelled code can raise or pass on.\<close>

datatype exn = ZeroDivisionError | AgentFailure string | CancelledError | TypeError

text \<open>
  The values a task's \<open>result\<close> can hold: the dict built by \<open>_execute_on_agent\<close>
  (status, agent id, task id, timestamp) and the dict built by \<open>_merge_results\<close>
  (the merged results and their count).
\<close>

datatype exec_value =
  AgentResult string string string string
| MergedResult "exec_value list" nat

text \<open>
  \<open>requirements\<close> is a dict read at two keys only, \<open>'specializations'\<close> (default \<open>[]\<close>)
  and \<open>'skills'\<close> (default \<open>{}\<close>); the record has one field for each. The field \<open>id\<close>
  is \<open>task_id\<close> and \<open>type\<close> is \<open>task_type\<close> here. \<open>context\<close>, \<open>created_at\<close> and
  \<open>deadline\<close> are never read by the routing code and are left out.
\<close>

record Task =
  task_id :: string
  task_type :: string
  priority :: TaskPriority
  req_specializations :: "string list"
  req_skills :: "(string \<times> real) list"
  status :: string
  assigned_agents :: "string list"
  result :: "exec_value option"

record AgentCapability =
  agent_id :: string
  specializations :: "string list"
  performance_score :: real
  availability :: bool
  current_load :: int
  max_load :: int
  skills :: "(string \<times> real) list"

text \<open>
  \<open>self.agents\<close> is a dict from agent id to the agent object, iterated in insertion
  order. It is modelled as the list of its values in that order; an agent object is
  identified by its \<open>agent_id\<close>, which \<open>register_agent\<close> makes equal to its key.
\<close>

type_synonym registry = "AgentCapability list"

definition upd_agent ::
  "string \<Rightarrow> (AgentCapability \<Rightarrow> AgentCapability) \<Rightarrow> registry \<Rightarrow> registry" where
  "upd_agent aid f reg = map (\<lambda>a. if agent_id a = aid then f a else a) reg"

subsection \<open>\<open>_execute_on_agent\<close>\<close>

text \<open>
  What the body of the \<open>try\<close> block does is the agent's business (a placeholder sleep in
  the source): it completes (at a timestamp) or raises an \<open>Exception\<close> (with a message).
  A call can also be cancelled at its \<open>await\<close>: \<open>CancelledError\<close> is not an
  \<open>Exception\<close>, so the \<open>except\<close> clause is skipped and only \<open>finally\<close> runs.
\<close>

datatype agent_run = Completed string | Raised string

datatype outcome = Finished agent_run | Cancelled

text \<open>Line 457: \<open>agent.current_load += 1\<close>, before the first \<open>await\<close>.\<close>

definition exec_begin :: "string \<Rightarrow> registry \<Rightarrow> registry" where
  "exec_begin aid reg = upd_agent aid (\<lambda>a. a\<lparr>current_load := current_load a + 1\<rparr>) reg"

text \<open>The update of the score on lines 465 and 482.\<close>

definition update_score :: "outcome \<Rightarrow> real \<Rightarrow> real" where
  "update_score oc s =
     (case oc of
        Finished (Completed _) \<Rightarrow> min 1.0 (s + 0.01)
      | Finished (Raised _) \<Rightarrow> max 0.0 (s - 0.05)
      | Cancelled \<Rightarrow> s)"

text \<open>Lines 459 to 486: the score update of the branch taken, then \<open>finally\<close>.\<close>

definition exec_finish :: "string \<Rightarrow> outcome \<Rightarrow> registry \<Rightarrow> registry" where
  "exec_finish aid oc reg =
     upd_agent aid
       (\<lambda>a. a\<lparr>performance_score := update_score oc (performance_score a),
              current_load := current_load a - 1\<rparr>) reg"

text \<open>What the call hands to its caller: the result dict, or the exception (\<open>Inl\<close>).\<close>

definition call_result :: "string \<Rightarrow> string \<Rightarrow> outcome \<Rightarrow> exn + exec_value" where
  "call_result aid tid oc =
     (case oc of
        Finished (Completed ts) \<Rightarrow> Inr (AgentResult ''success'' aid tid ts)
      | Finished (Raised msg) \<Rightarrow> Inl (AgentFailure msg)
      | Cancelled \<Rightarrow> Inl CancelledError)"

definition execute_on_agent ::
  "string \<Rightarrow> string \<Rightarrow> outcome \<Rightarrow> registry \<Rightarrow> (exn + exec_value) \<times> registry" where
  "execute_on_agent aid tid oc reg =
     (call_result aid tid oc, exec_finish aid oc (exec_begin aid reg))"

text \<open>
  Calls that run concurrently (\<open>asyncio.gather\<close>, \<open>asyncio.wait\<close>) interleave at the
  \<open>await\<close>: the registry sees the two halves of each call as separate events.
\<close>

datatype event = Begin string | End string outcome

fun apply_event :: "registry \<Rightarrow> event \<Rightarrow> registry" where
  "apply_event reg (Begin aid) = exec_begin aid reg"
| "apply_event reg (End aid oc) = exec_finish aid oc reg"

definition run_events :: "event list \<Rightarrow> registry \<Rightarrow> registry" where
  "run_events evs reg = foldl apply_event reg evs"

text \<open>
  Every call started together runs up to its sleep, in the order given; then each one
  resumes and finishes (or is cancelled there).
\<close>

definition schedule :: "(string \<Rightarrow> outcome) \<Rightarrow> string list \<Rightarrow> event list" where
  "schedule oc ids = map Begin ids @ map (\<lambda>a. End a (oc a)) ids"

text \<open>
  \<open>asyncio.gather(*[...], return_exceptions=True)\<close> over calls (agent id, task id): the
  results in the order of the calls, exceptions among them, and the registry after all
  of them. Nothing cancels a call of a gather.
\<close>

definition gather_exec ::
  "(string \<Rightarrow> agent_run) \<Rightarrow> (string \<times> string) list \<Rightarrow> registry
     \<Rightarrow> (exn + exec_value) list \<times> registry" where
  "gather_exec run calls reg =
     (map (\<lambda>(aid, tid). call_result aid tid (Finished (run aid))) calls,
      run_events (schedule (\<lambda>a. Finished (run a)) (map fst calls)) reg)"

text \<open>\<open>[r for r in results if not isinstance(r, Exception)]\<close>\<close>

fun valid_results :: "(exn + exec_value) list \<Rightarrow> exec_value list" where
  "valid_results [] = []"
| "valid_results (Inl e # rs) = valid_results rs"
| "valid_results (Inr v # rs) = v # valid_results rs"

text \<open>A sequence of dispatch/complete cycles, one call after the other.\<close>

fun dispatch_cycles :: "(string \<times> string \<times> outcome) list \<Rightarrow> registry \<Rightarrow> registry" where
  "dispatch_cycles [] reg = reg"
| "dispatch_cycles ((aid, tid, oc) # rest) reg =
     dispatch_cycles rest (snd (execute_on_agent aid tid oc reg))"

subsection \<open>\<open>_find_suitable_agents\<close>\<close>

text \<open>
  The loop body of lines 428 to 441: an agent is skipped when it is unavailable or its
  load has reached its maximum; with required specializations it is kept when one of
  them is among its own, without any it is kept.
\<close>

definition is_suitable :: "Task \<Rightarrow> AgentCapability \<Rightarrow> bool" where
  "is_suitable task agent =
     (if \<not> availability agent \<or> current_load agent \<ge> max_load agent then False
      else if req_specializations task \<noteq> [] then
        list_ex (\<lambda>spec. spec \<in> set (specializations agent)) (req_specializations task)
      else True)"

text \<open>
  The sort key of lines 445 to 447, a float: the true division of two ints, the
  subtraction from 1 and the product, each with the rounding of its operation.
\<close>

definition rank_key :: "float_ops \<Rightarrow> AgentCapability \<Rightarrow> real" where
  "rank_key fl a =
     fl_mul fl (performance_score a)
       (fl_sub fl 1 (fl_div fl (real_of_int (current_load a)) (real_of_int (max_load a))))"

text \<open>
  \<open>list.sort(key=..., reverse=True)\<close> computes the key of every element first, so a
  suitable agent with \<open>max_load = 0\<close> (its load is then negative) raises
  \<open>ZeroDivisionError\<close>. The sort is stable and descending: elements with equal keys
  keep their order, which is what the stable ascending sort on the negated key gives.
\<close>

definition find_suitable_agents ::
  "float_ops \<Rightarrow> registry \<Rightarrow> Task \<Rightarrow> exn + AgentCapability list" where
  "find_suitable_agents fl reg task =
     (let suitable = filter (is_suitable task) reg
      in if list_ex (\<lambda>a. max_load a = 0) suitable then Inl ZeroDivisionError
         else Inr (sort_key (\<lambda>a. - rank_key fl a) suitable))"

subsection \<open>The standalone \<open>TaskRouter\<close> (task\_router.py)\<close>

definition router_is_suitable :: "Task \<Rightarrow> AgentCapability \<Rightarrow> bool" where
  "router_is_suitable task agent =
     (if \<not> availability agent then False
      else if req_specializations task \<noteq> [] then
        list_ex (\<lambda>s. s \<in> set (specializations agent)) (req_specializations task)
      else True)"

definition route :: "Task \<Rightarrow> registry \<Rightarrow> AgentCapability list" where
  "route task reg = sort_key (\<lambda>a. - performance_score a) (filter (router_is_suitable task) reg)"

subsection \<open>The orchestrator's state\<close>

text \<open>
  Task objects are shared: the same object is a value of \<open>active_tasks\<close>, an item of the
  queue and later an element of \<open>completed_tasks\<close>, and routing mutates it in place. The
  objects live in a store (\<open>tasks\<close>, a reference is an index), and the three containers
  hold references.
\<close>

record orchestrator =
  agents :: registry
  tasks :: "Task list"
  active_tasks :: "(string \<times> nat) list"
  completed_tasks :: "nat list"
  strategy :: OrchestrationStrategy
  task_queue :: "nat list"
  running :: bool

definition init_orchestrator :: orchestrator where
  "init_orchestrator =
     \<lparr>agents = [], tasks = [], active_tasks = [], completed_tasks = [],
      strategy = ADAPTIVE, task_queue = [], running = False\<rparr>"

definition set_task :: "nat \<Rightarrow> (Task \<Rightarrow> Task) \<Rightarrow> orchestrator \<Rightarrow> orchestrator" where
  "set_task ref f st = st\<lparr>tasks := (tasks st)[ref := f (tasks st ! ref)]\<rparr>"

definition fail_task :: "nat \<Rightarrow> orchestrator \<Rightarrow> orchestrator" where
  "fail_task ref st = set_task ref (\<lambda>t. t\<lparr>status := ''failed''\<rparr>) st"

subsection \<open>Registration and submission\<close>

text \<open>The \<open>capabilities\<close> dict, read at three keys with defaults.\<close>

record capabilities =
  cap_performance_score :: "real option"
  cap_max_load :: "int option"
  cap_skills :: "(string \<times> real) list option"

definition new_agent :: "string \<Rightarrow> string list \<Rightarrow> capabilities \<Rightarrow> AgentCapability" where
  "new_agent aid specs caps =
     \<lparr>agent_id = aid, specializations = specs,
      performance_score = (case cap_performance_score caps of None \<Rightarrow> 0.5 | Some s \<Rightarrow> s),
      availability = True, current_load = 0,
      max_load = (case cap_max_load caps of None \<Rightarrow> 10 | Some m \<Rightarrow> m),
      skills = (case cap_skills caps of None \<Rightarrow> [] | Some d \<Rightarrow> d)\<rparr>"

text \<open>\<open>self.agents[agent_id] = ...\<close>: an existing key keeps its place, a new one goes last.\<close>

fun dict_set :: "AgentCapability \<Rightarrow> registry \<Rightarrow> registry" where
  "dict_set a [] = [a]"
| "dict_set a (b # reg) = (if agent_id b = agent_id a then a # reg else b # dict_set a reg)"

text \<open>
  Nothing in the \<open>try\<close> block raises (a dataclass constructor and three \<open>dict.get\<close>), so
  the function returns \<open>True\<close>.
\<close>

definition register_agent ::
  "string \<Rightarrow> string list \<Rightarrow> capabilities \<Rightarrow> orchestrator \<Rightarrow> bool \<times> orchestrator" where
  "register_agent aid specs caps st =
     (True, st\<lparr>agents := dict_set (new_agent aid specs caps) (agents st)\<rparr>)"

definition unregister_agent :: "string \<Rightarrow> orchestrator \<Rightarrow> bool \<times> orchestrator" where
  "unregister_agent aid st =
     (if aid \<in> set (map agent_id (agents st))
      then (True, st\<lparr>agents := filter (\<lambda>a. agent_id a \<noteq> aid) (agents st)\<rparr>)
      else (False, st))"

text \<open>\<open>d[k] = v\<close> on a dict kept as an association list in insertion order.\<close>

fun dict_put :: "'k \<Rightarrow> 'v \<Rightarrow> ('k \<times> 'v) list \<Rightarrow> ('k \<times> 'v) list" where
  "dict_put k v [] = [(k, v)]"
| "dict_put k v ((k', v') # d) = (if k' = k then (k, v) # d else (k', v') # dict_put k v d)"

text \<open>\<open>submit_task\<close>; the fresh uuid is a parameter. Returns the reference of the new task.\<close>

definition submit_task ::
  "string \<Rightarrow> string \<Rightarrow> string list \<Rightarrow> (string \<times> real) list \<Rightarrow> TaskPriority
     \<Rightarrow> orchestrator \<Rightarrow> nat \<times> orchestrator" where
  "submit_task uuid ty specs sk prio st =
     (let ref = length (tasks st);
          task = \<lparr>task_id = uuid, task_type = ty, priority = prio,
                  req_specializations = specs, req_skills = sk, status = ''pending'',
                  assigned_agents = [], result = None\<rparr>
      in (ref, st\<lparr>tasks := tasks st @ [task],
                  active_tasks := dict_put uuid ref (active_tasks st),
                  task_queue := task_queue st @ [ref]\<rparr>))"

text \<open>
  \<open>_complete_task\<close>: delete the task's key from \<open>active_tasks\<close> if it is there, append
  the object to \<open>completed_tasks\<close>.
\<close>

definition complete_task :: "nat \<Rightarrow> orchestrator \<Rightarrow> orchestrator" where
  "complete_task ref st =
     st\<lparr>active_tasks := filter (\<lambda>(k, r). k \<noteq> task_id (tasks st ! ref)) (active_tasks st),
        completed_tasks := completed_tasks st @ [ref]\<rparr>"

definition set_strategy :: "OrchestrationStrategy \<Rightarrow> orchestrator \<Rightarrow> orchestrator" where
  "set_strategy s st = st\<lparr>strategy := s\<rparr>"

text \<open>The counts of the system-wide \<open>get_status\<close>.\<close>

record status_report =
  rep_total_agents :: nat
  rep_active_agents :: nat
  rep_active_tasks :: nat
  rep_completed_tasks :: nat
  rep_queue_size :: nat
  rep_strategy :: OrchestrationStrategy

definition get_status :: "orchestrator \<Rightarrow> status_report" where
  "get_status st =
     \<lparr>rep_total_agents = length (agents st),
      rep_active_agents = length (filter availability (agents st)),
      rep_active_tasks = length (active_tasks st),
      rep_completed_tasks = length (completed_tasks st),
      rep_queue_size = length (task_queue st),
      rep_strategy = strategy st\<rparr>"

text \<open>
  \<open>get_task_status\<close>: the active entry if there is one (without a result), else the
  first completed task of that id (with its result); here reduced to the status and the
  result reported.
\<close>

definition get_task_status :: "string \<Rightarrow> orchestrator \<Rightarrow> (string \<times> exec_value option) option" where
  "get_task_status tid st =
     (case map_of (active_tasks st) tid of
        Some ref \<Rightarrow> Some (status (tasks st ! ref), None)
      | None \<Rightarrow>
          (case find (\<lambda>ref. task_id (tasks st ! ref) = tid) (completed_tasks st) of
             Some ref \<Rightarrow> Some (status (tasks st ! ref), result (tasks st ! ref))
           | None \<Rightarrow> None))"

subsection \<open>Consensus Aggregator: \<open>_achieve_consensus\<close>\<close>

text \<open>
  \<open>Counter(iterable)\<close> is a dict: each element increments its count, a new element is
  inserted last with count 1.
\<close>

fun counter_incr :: "(string \<times> nat) list \<Rightarrow> string \<Rightarrow> (string \<times> nat) list" where
  "counter_incr [] k = [(k, 1)]"
| "counter_incr ((k', c) # rest) k =
     (if k' = k then (k', c + 1) # rest else (k', c) # counter_incr rest k)"

definition Counter :: "string list \<Rightarrow> (string \<times> nat) list" where
  "Counter xs = foldl counter_incr [] xs"

text \<open>
  Python's \<open>max(iterable, key=...)\<close>: the running maximum is replaced only by an element
  with a strictly greater key, so the first of the maximal elements is returned.
\<close>

fun py_max :: "('a \<Rightarrow> 'b::linorder) \<Rightarrow> 'a \<Rightarrow> 'a list \<Rightarrow> 'a" where
  "py_max key best [] = best"
| "py_max key best (x # xs) = py_max key (if key best < key x then x else best) xs"

text \<open>
  \<open>most_common(1)\<close> is \<open>heapq.nlargest(1, self.items(), key=itemgetter(1))\<close>, which for
  \<open>n = 1\<close> is \<open>max\<close> over the items in the dict's order; empty on an empty counter.
\<close>

definition most_common_1 :: "(string \<times> nat) list \<Rightarrow> (string \<times> nat) list" where
  "most_common_1 items = (case items of [] \<Rightarrow> [] | x # xs \<Rightarrow> [py_max snd x xs])"

text \<open>
  Lines 526 to 542. \<open>str\<close> is Python's \<open>str\<close> on the results. \<open>most_common(1)[0]\<close> and
  \<open>next(...)\<close> raise on nothing found, which is \<open>None\<close> in the inner cases here (both
  are shown below not to happen).
\<close>

definition achieve_consensus :: "('a \<Rightarrow> string) \<Rightarrow> 'a list \<Rightarrow> 'a option" where
  "achieve_consensus str results =
     (if results = [] then None
      else (case most_common_1 (Counter (map str results)) of
              [] \<Rightarrow> None
            | (most_common, _) # _ \<Rightarrow> find (\<lambda>r. str r = most_common) results))"

subsection \<open>Routing\<close>

text \<open>
  What the orchestrator does not decide: what each agent's execution does (by agent id),
  which calls of a race had finished when \<open>asyncio.wait\<close> returned, Python's \<open>str\<close> of
  a result, the float arithmetic, and whether \<open>asyncio.wait\<close> accepts coroutine objects
  (it wraps them in tasks up to Python 3.10 and raises \<open>TypeError\<close> from 3.11 on).
\<close>

record world =
  run_of :: "string \<Rightarrow> agent_run"
  first_done :: "string \<Rightarrow> bool"
  str_of :: "exec_value \<Rightarrow> string"
  arith :: float_ops
  wait_takes_coroutines :: bool

text \<open>
  The tail shared by \<open>_sequential_routing\<close> (lines 209 to 220), \<open>_hierarchical_routing\<close>
  (296 to 310) and \<open>_adaptive_routing\<close> (409 to 421): assign the one agent, await
  \<open>_execute_on_agent\<close>, store the result, mark the task completed and move it. An
  exception of the call leaves the function at the \<open>await\<close>.
\<close>

definition dispatch_one :: "world \<Rightarrow> string \<Rightarrow> nat \<Rightarrow> orchestrator \<Rightarrow> exn option \<times> orchestrator" where
  "dispatch_one w aid ref st =
     (let st1 = set_task ref (\<lambda>t. t\<lparr>assigned_agents := [aid]\<rparr>) st;
          (r, reg) = execute_on_agent aid (task_id (tasks st ! ref)) (Finished (run_of w aid))
                       (agents st1);
          st2 = st1\<lparr>agents := reg\<rparr>
      in case r of
           Inl e \<Rightarrow> (Some e, st2)
         | Inr v \<Rightarrow>
             (None, complete_task ref
                      (set_task ref (\<lambda>t. t\<lparr>result := Some v, status := ''completed''\<rparr>) st2)))"

definition sequential_routing :: "world \<Rightarrow> nat \<Rightarrow> orchestrator \<Rightarrow> exn option \<times> orchestrator" where
  "sequential_routing w ref st =
     (case find_suitable_agents (arith w) (agents st) (tasks st ! ref) of
        Inl e \<Rightarrow> (Some e, st)
      | Inr suitable_agents \<Rightarrow>
          (case suitable_agents of
             [] \<Rightarrow> (None, fail_task ref st)
           | best_agent # _ \<Rightarrow> dispatch_one w (agent_id best_agent) ref st))"

text \<open>\<open>task.result\<close> is a non-empty dict or \<open>None\<close>, so \<open>if task.result\<close> tests for \<open>None\<close>.\<close>

definition parallel_routing :: "world \<Rightarrow> nat \<Rightarrow> orchestrator \<Rightarrow> exn option \<times> orchestrator" where
  "parallel_routing w ref st =
     (case find_suitable_agents (arith w) (agents st) (tasks st ! ref) of
        Inl e \<Rightarrow> (Some e, st)
      | Inr suitable_agents \<Rightarrow>
          if suitable_agents = [] then (None, fail_task ref st)
          else
            (let selected_agents = take (min 3 (length suitable_agents)) suitable_agents;
                 st1 = set_task ref (\<lambda>t. t\<lparr>assigned_agents := map agent_id selected_agents\<rparr>) st;
                 (results, reg) =
                    gather_exec (run_of w)
                      (map (\<lambda>a. (agent_id a, task_id (tasks st ! ref))) selected_agents) (agents st1);
                 res = (case valid_results results of [] \<Rightarrow> None | r # _ \<Rightarrow> Some r);
                 st2 = set_task ref
                         (\<lambda>t. t\<lparr>result := res,
                                status := (if res \<noteq> None then ''completed'' else ''failed'')\<rparr>)
                         (st1\<lparr>agents := reg\<rparr>)
             in (None, complete_task ref st2)))"

definition consensus_routing :: "world \<Rightarrow> nat \<Rightarrow> orchestrator \<Rightarrow> exn option \<times> orchestrator" where
  "consensus_routing w ref st =
     (case find_suitable_agents (arith w) (agents st) (tasks st ! ref) of
        Inl e \<Rightarrow> (Some e, st)
      | Inr suitable_agents \<Rightarrow>
          if length suitable_agents < 3 then parallel_routing w ref st
          else
            (let selected_agents = take (min 5 (length suitable_agents)) suitable_agents;
                 st1 = set_task ref (\<lambda>t. t\<lparr>assigned_agents := map agent_id selected_agents\<rparr>) st;
                 (results, reg) =
                    gather_exec (run_of w)
                      (map (\<lambda>a. (agent_id a, task_id (tasks st ! ref))) selected_agents) (agents st1);
                 valid = valid_results results;
                 st2 = (if valid \<noteq> []
                        then set_task ref
                               (\<lambda>t. t\<lparr>result := achieve_consensus (str_of w) valid,
                                      status := ''completed''\<rparr>) (st1\<lparr>agents := reg\<rparr>)
                        else fail_task ref (st1\<lparr>agents := reg\<rparr>))
             in (None, complete_task ref st2)))"

text \<open>
  \<open>_adaptive_routing\<close>'s \<open>score_agent\<close>. \<open>agent.skills.get(skill, 0)\<close> is a dict lookup
  with a default; \<open>sum\<close> over the generator of products is the float sum of the list.
\<close>

definition dict_get :: "('k \<times> 'v) list \<Rightarrow> 'k \<Rightarrow> 'v \<Rightarrow> 'v" where
  "dict_get d k dflt = (case map_of d k of None \<Rightarrow> dflt | Some v \<Rightarrow> v)"

definition score_agent :: "float_ops \<Rightarrow> Task \<Rightarrow> AgentCapability \<Rightarrow> real" where
  "score_agent fl task agent =
     (let score = performance_score agent;
          load_factor =
            fl_sub fl 1
              (fl_div fl (real_of_int (current_load agent)) (real_of_int (max_load agent)));
          score = fl_mul fl score load_factor;
          required_skills = req_skills task
      in if required_skills \<noteq> [] then
           (let skill_match =
                  fl_div fl
                    (fl_sum fl
                       (map (\<lambda>(skill, weight). fl_mul fl (dict_get (skills agent) skill 0) weight)
                          required_skills))
                    (real (length required_skills))
            in fl_mul fl score (fl_add fl 1 skill_match))
         else score)"

definition adaptive_routing :: "world \<Rightarrow> nat \<Rightarrow> orchestrator \<Rightarrow> exn option \<times> orchestrator" where
  "adaptive_routing w ref st =
     (case find_suitable_agents (arith w) (agents st) (tasks st ! ref) of
        Inl e \<Rightarrow> (Some e, st)
      | Inr suitable_agents \<Rightarrow>
          (case suitable_agents of
             [] \<Rightarrow> (None, fail_task ref st)
           | a # rest \<Rightarrow>
               dispatch_one w
                 (agent_id (py_max (score_agent (arith w) (tasks st ! ref)) a rest)) ref st))"

text \<open>
  \<open>_hierarchical_routing\<close> takes the first registered agent that advertises
  \<open>'coordinator'\<close> or \<open>'general'\<close>, whatever its availability and load.
\<close>

definition find_coordinator :: "registry \<Rightarrow> AgentCapability option" where
  "find_coordinator reg =
     find (\<lambda>a. ''coordinator'' \<in> set (specializations a) \<or> ''general'' \<in> set (specializations a))
       reg"

definition hierarchical_routing :: "world \<Rightarrow> nat \<Rightarrow> orchestrator \<Rightarrow> exn option \<times> orchestrator" where
  "hierarchical_routing w ref st =
     (case find_coordinator (agents st) of
        Some coordinator \<Rightarrow> dispatch_one w (agent_id coordinator) ref st
      | None \<Rightarrow> adaptive_routing w ref st)"

text \<open>
  \<open>_competitive_routing\<close> hands coroutine objects to \<open>asyncio.wait\<close>. Where that raises
  \<open>TypeError\<close> no call ever starts and the exception leaves the function after the
  assignment of the agents. Where it is accepted every selected call starts; those that
  had not finished when \<open>asyncio.wait\<close> returned are cancelled and unwind through their
  \<open>finally\<close> before the next task is taken from the queue. \<open>next(iter(done))\<close> takes an
  element of a set; the model takes the first finished call in selection order. Its
  \<open>.result()\<close> re-raises the call's exception.
\<close>

definition race_outcome :: "world \<Rightarrow> string \<Rightarrow> outcome" where
  "race_outcome w a = (if first_done w a then Finished (run_of w a) else Cancelled)"

definition competitive_routing :: "world \<Rightarrow> nat \<Rightarrow> orchestrator \<Rightarrow> exn option \<times> orchestrator" where
  "competitive_routing w ref st =
     (case find_suitable_agents (arith w) (agents st) (tasks st ! ref) of
        Inl e \<Rightarrow> (Some e, st)
      | Inr suitable_agents \<Rightarrow>
          if suitable_agents = [] then (None, fail_task ref st)
          else
            (let selected_agents = take (min 3 (length suitable_agents)) suitable_agents;
                 ids = map agent_id selected_agents;
                 st1 = set_task ref (\<lambda>t. t\<lparr>assigned_agents := ids\<rparr>) st;
                 st2 = st1\<lparr>agents := run_events (schedule (race_outcome w) ids) (agents st1)\<rparr>
             in if \<not> wait_takes_coroutines w then (Some TypeError, st1)
                else
                  (case filter (first_done w) ids of
                     [] \<Rightarrow>
                       (None, complete_task ref
                                (set_task ref (\<lambda>t. t\<lparr>result := None, status := ''failed''\<rparr>) st2))
                   | winner # _ \<Rightarrow>
                       (case call_result winner (task_id (tasks st ! ref))
                               (Finished (run_of w winner)) of
                          Inl e \<Rightarrow> (Some e, st2)
                        | Inr v \<Rightarrow>
                            (None, complete_task ref
                                     (set_task ref
                                        (\<lambda>t. t\<lparr>result := Some v, status := ''completed''\<rparr>)
                                        st2))))))"

text \<open>Python's \<open>str\<close> of a non-negative int.\<close>

definition digit_char :: "nat \<Rightarrow> char" where
  "digit_char d = char_of (48 + d)"

function str_nat :: "nat \<Rightarrow> string" where
  "str_nat n = (if n < 10 then [digit_char n] else str_nat (n div 10) @ [digit_char (n mod 10)])"
  by pat_completeness auto
termination
  by (relation "measure (\<lambda>n. n)") auto

declare str_nat.simps [simp del]

text \<open>
  \<open>_create_subtasks\<close> followed by the \<open>Task(...)\<close> of \<open>_execute_subtask\<close>: subtask \<open>i\<close>
  has the id \<open>f"{task.id}_sub_{i}"\<close>, the type \<open>f"{task.type}_part"\<close>, the parent's
  requirements, normal priority and the defaults of a new task.
\<close>

definition create_subtasks :: "Task \<Rightarrow> nat \<Rightarrow> Task list" where
  "create_subtasks task num_subtasks =
     map (\<lambda>i. \<lparr>task_id = task_id task @ ''_sub_'' @ str_nat i,
               task_type = task_type task @ ''_part'', priority = NORMAL,
               req_specializations = req_specializations task, req_skills = req_skills task,
               status = ''pending'', assigned_agents = [], result = None\<rparr>)
       [0..<num_subtasks]"

definition collaborative_routing :: "world \<Rightarrow> nat \<Rightarrow> orchestrator \<Rightarrow> exn option \<times> orchestrator" where
  "collaborative_routing w ref st =
     (case find_suitable_agents (arith w) (agents st) (tasks st ! ref) of
        Inl e \<Rightarrow> (Some e, st)
      | Inr suitable_agents \<Rightarrow>
          if suitable_agents = [] then (None, fail_task ref st)
          else
            (let selected_agents = take (min 4 (length suitable_agents)) suitable_agents;
                 st1 = set_task ref (\<lambda>t. t\<lparr>assigned_agents := map agent_id selected_agents\<rparr>) st;
                 subtasks = create_subtasks (tasks st1 ! ref) (length selected_agents);
                 (results, reg) =
                    gather_exec (run_of w)
                      (map (\<lambda>(agent, subtask). (agent_id agent, task_id subtask))
                         (zip selected_agents subtasks)) (agents st1);
                 valid = valid_results results;
                 st2 = (if valid \<noteq> []
                        then set_task ref
                               (\<lambda>t. t\<lparr>result := Some (MergedResult valid (length valid)),
                                      status := ''completed''\<rparr>) (st1\<lparr>agents := reg\<rparr>)
                        else fail_task ref (st1\<lparr>agents := reg\<rparr>))
             in (None, complete_task ref st2)))"

text \<open>
  \<open>_route_task\<close>: the routing of the current strategy; an exception that leaves it is
  logged and the task is marked failed.
\<close>

definition route_task :: "world \<Rightarrow> nat \<Rightarrow> orchestrator \<Rightarrow> orchestrator" where
  "route_task w ref st =
     (let (e, st') =
            (case strategy st of
               SEQUENTIAL \<Rightarrow> sequential_routing w ref st
             | PARALLEL \<Rightarrow> parallel_routing w ref st
             | CONSENSUS \<Rightarrow> consensus_routing w ref st
             | HIERARCHICAL \<Rightarrow> hierarchical_routing w ref st
             | COMPETITIVE \<Rightarrow> competitive_routing w ref st
             | COLLABORATIVE \<Rightarrow> collaborative_routing w ref st
             | ADAPTIVE \<Rightarrow> adaptive_routing w ref st)
      in case e of None \<Rightarrow> st' | Some _ \<Rightarrow> fail_task ref st')"

text \<open>One turn of \<open>_process_task_queue\<close>: the oldest queued task is routed.\<close>

definition process_next :: "world \<Rightarrow> orchestrator \<Rightarrow> orchestrator" where
  "process_next w st =
     (case task_queue st of
        [] \<Rightarrow> st
      | ref # q \<Rightarrow> route_task w ref (st\<lparr>task_queue := q\<rparr>))"

text \<open>
  The agents a routing dispatches to, in the order their calls start, and the events its
  calls make on the registry.
\<close>

definition top_ids :: "nat \<Rightarrow> AgentCapability list \<Rightarrow> string list" where
  "top_ids n suitable = map agent_id (take (min n (length suitable)) suitable)"

definition adaptive_ids :: "float_ops \<Rightarrow> registry \<Rightarrow> Task \<Rightarrow> string list" where
  "adaptive_ids fl reg task =
     (case find_suitable_agents fl reg task of
        Inl e \<Rightarrow> []
      | Inr [] \<Rightarrow> []
      | Inr (a # rest) \<Rightarrow> [agent_id (py_max (score_agent fl task) a rest)])"

definition dispatched ::
  "float_ops \<Rightarrow> OrchestrationStrategy \<Rightarrow> registry \<Rightarrow> Task \<Rightarrow> string list" where
  "dispatched fl s reg task =
     (case s of
        HIERARCHICAL \<Rightarrow>
          (case find_coordinator reg of
             Some coordinator \<Rightarrow> [agent_id coordinator]
           | None \<Rightarrow> adaptive_ids fl reg task)
      | ADAPTIVE \<Rightarrow> adaptive_ids fl reg task
      | _ \<Rightarrow>
          (case find_suitable_agents fl reg task of
             Inl e \<Rightarrow> []
           | Inr suitable \<Rightarrow>
               (case s of
                  SEQUENTIAL \<Rightarrow> top_ids 1 suitable
                | PARALLEL \<Rightarrow> top_ids 3 suitable
                | CONSENSUS \<Rightarrow> if length suitable < 3 then top_ids 3 suitable else top_ids 5 suitable
                | COMPETITIVE \<Rightarrow> top_ids 3 suitable
                | _ \<Rightarrow> top_ids 4 suitable)))"

definition route_events :: "world \<Rightarrow> OrchestrationStrategy \<Rightarrow> registry \<Rightarrow> Task \<Rightarrow> event list" where
  "route_events w s reg task =
     (if s = COMPETITIVE \<and> \<not> wait_takes_coroutines w then []
      else schedule (if s = COMPETITIVE then race_outcome w else (\<lambda>a. Finished (run_of w a)))
             (dispatched (arith w) s reg task))"

text \<open>The invariant of the data model.\<close>

definition load_within_max :: "registry \<Rightarrow> bool" where
  "load_within_max reg = list_all (\<lambda>a. current_load a \<le> max_load a) reg"

text \<open>
  The registry between two operations of an orchestrator whose agents were all registered
  with a positive \<open>max_load\<close>: ids are keys, nothing is in flight.
\<close>

definition idle_registry :: "registry \<Rightarrow> bool" where
  "idle_registry reg =
     (distinct (map agent_id reg) \<and> list_all (\<lambda>l. l = 0) (map current_load reg)
      \<and> list_all (\<lambda>m. 1 \<le> m) (map max_load reg))"

text \<open>
  The states the orchestrator is in between two operations, when every registration has
  a positive \<open>max_load\<close>. Tasks are routed one at a time, as \<open>_process_task_queue\<close>
  does.
\<close>

inductive at_rest :: "orchestrator \<Rightarrow> bool" where
  rest_init: "at_rest init_orchestrator"
| rest_register:
    "at_rest st \<Longrightarrow> 1 \<le> max_load (new_agent aid specs caps) \<Longrightarrow>
     at_rest (snd (register_agent aid specs caps st))"
| rest_unregister: "at_rest st \<Longrightarrow> at_rest (snd (unregister_agent aid st))"
| rest_submit: "at_rest st \<Longrightarrow> at_rest (snd (submit_task uuid ty specs sk prio st))"
| rest_set_strategy: "at_rest st \<Longrightarrow> at_rest (set_strategy s st)"
| rest_route: "at_rest st \<Longrightarrow> at_rest (route_task w ref st)"
| rest_process: "at_rest st \<Longrightarrow> at_rest (process_next w st)"

text \<open>
  The same without the condition on \<open>max_load\<close>: the states between two operations of
  any orchestrator, and its registry then.
\<close>

definition quiet_registry :: "registry \<Rightarrow> bool" where
  "quiet_registry reg =
     (distinct (map agent_id reg) \<and> list_all (\<lambda>l. l = 0) (map current_load reg))"

inductive reachable :: "orchestrator \<Rightarrow> bool" where
  reach_init: "reachable init_orchestrator"
| reach_register: "reachable st \<Longrightarrow> reachable (snd (register_agent aid specs caps st))"
| reach_unregister: "reachable st \<Longrightarrow> reachable (snd (unregister_agent aid st))"
| reach_submit: "reachable st \<Longrightarrow> reachable (snd (submit_task uuid ty specs sk prio st))"
| reach_set_strategy: "reachable st \<Longrightarrow> reachable (set_strategy s st)"
| reach_route: "reachable st \<Longrightarrow> reachable (route_task w ref st)"
| reach_process: "reachable st \<Longrightarrow> reachable (process_next w st)"

text \<open>The registry after the first \<open>k\<close> events of the routing of a task.\<close>

definition in_flight :: "world \<Rightarrow> nat \<Rightarrow> nat \<Rightarrow> orchestrator \<Rightarrow> registry" where
  "in_flight w ref k st =
     run_events (take k (route_events w (strategy st) (agents st) (tasks st ! ref))) (agents st)"

section \<open>Automation tier: the model of core/engines/coact\_engine.py\<close>

datatype TaskComplexity = SIMPLE | MODERATE | COMPLEX | VERY_COMPLEX

text \<open>
  \<open>ExecutionStrategy\<close>; its members carry the suffix \<open>_exec\<close> here, three of them share
  their names with members of \<open>OrchestrationStrategy\<close>.
\<close>

datatype ExecutionStrategy = SEQUENTIAL_exec | PARALLEL_exec | HYBRID_exec | ADAPTIVE_exec

subsection \<open>Complexity Analyzer: \<open>analyze_task_complexity\<close>\<close>

text \<open>
  A description is a Python \<open>str\<close>; a \<open>char\<close> here is a code point below 256. On those,
  \<open>str.lower\<close> maps A to Z and the capital letters of Latin-1 to their small letters,
  and \<open>str.split()\<close> splits at runs of the code points for which \<open>str.isspace\<close> holds,
  giving no empty word.
\<close>

definition py_lower_char :: "char \<Rightarrow> char" where
  "py_lower_char c =
     (let n = of_char c :: nat
      in if (65 \<le> n \<and> n \<le> 90) \<or> (192 \<le> n \<and> n \<le> 222 \<and> n \<noteq> 215) then char_of (n + 32) else c)"

definition py_lower :: "string \<Rightarrow> string" where
  "py_lower s = map py_lower_char s"

definition py_isspace :: "char \<Rightarrow> bool" where
  "py_isspace c =
     (let n = of_char c :: nat
      in (9 \<le> n \<and> n \<le> 13) \<or> (28 \<le> n \<and> n \<le> 32) \<or> n = 133 \<or> n = 160)"

fun split_words :: "string \<Rightarrow> string \<Rightarrow> string list" where
  "split_words cur [] = (if cur = [] then [] else [cur])"
| "split_words cur (c # cs) =
     (if py_isspace c then (if cur = [] then split_words [] cs else cur # split_words [] cs)
      else split_words (cur @ [c]) cs)"

definition py_split :: "string \<Rightarrow> string list" where
  "py_split s = split_words [] s"

definition complexity_keywords :: "(string \<times> real) list" where
  "complexity_keywords =
     [(''analyze'', 1.2), (''integrate'', 1.5), (''coordinate'', 1.8),
      (''optimize'', 2.0), (''synthesize'', 2.2), (''orchestrate'', 2.5),
      (''multiple'', 1.3), (''complex'', 2.0), (''advanced'', 1.7),
      (''simultaneous'', 2.3), (''parallel'', 1.8), (''sequential'', 1.2)]"

text \<open>
  The loop of lines 354 to 357 over the words, on the score and the indicators. The score
  is a float and \<open>+=\<close> is float addition.
\<close>

fun scan_words ::
  "float_ops \<Rightarrow> string list \<Rightarrow> real \<times> string list \<Rightarrow> real \<times> string list" where
  "scan_words fl [] acc = acc"
| "scan_words fl (word # ws) (complexity_score, indicators) =
     (case map_of complexity_keywords word of
        Some weight \<Rightarrow> scan_words fl ws (fl_add fl complexity_score weight, indicators @ [word])
      | None \<Rightarrow> scan_words fl ws (complexity_score, indicators))"

text \<open>Lines 365 to 372.\<close>

definition level_of_score :: "real \<Rightarrow> TaskComplexity" where
  "level_of_score complexity_score =
     (if complexity_score \<le> 2.0 then SIMPLE
      else if complexity_score \<le> 4.0 then MODERATE
      else if complexity_score \<le> 6.0 then COMPLEX
      else VERY_COMPLEX)"

definition recommend_strategy :: "TaskComplexity \<Rightarrow> ExecutionStrategy" where
  "recommend_strategy complexity_level =
     (case complexity_level of
        SIMPLE \<Rightarrow> SEQUENTIAL_exec
      | MODERATE \<Rightarrow> PARALLEL_exec
      | COMPLEX \<Rightarrow> HYBRID_exec
      | VERY_COMPLEX \<Rightarrow> ADAPTIVE_exec)"

text \<open>Python's \<open>int\<close> of a float truncates towards zero.\<close>

definition py_int :: "real \<Rightarrow> int" where
  "py_int x = (if 0 \<le> x then \<lfloor>x\<rfloor> else \<lceil>x\<rceil>)"

record complexity_analysis =
  complexity_score :: real
  complexity_level :: TaskComplexity
  indicators :: "string list"
  estimated_steps :: int
  estimated_time :: real
  recommended_strategy :: ExecutionStrategy

definition analyze_task_complexity :: "float_ops \<Rightarrow> string \<Rightarrow> complexity_analysis" where
  "analyze_task_complexity fl task_description =
     (let words = py_split (py_lower task_description);
          (score0, ind0) = scan_words fl words (0.0, []);
          (score1, ind1) =
             (if length words > 20 then (fl_add fl score0 1.0, ind0 @ [''lengthy_description''])
              else (score0, ind0));
          level = level_of_score score1
      in \<lparr>complexity_score = score1, complexity_level = level, indicators = ind1,
          estimated_steps = max (py_int (fl_mul fl score1 2)) 3,
          estimated_time = fl_mul fl score1 10,
          recommended_strategy = recommend_strategy level\<rparr>)"

subsection \<open>The strategy executors\<close>

text \<open>
  \<open>CoActResult\<close>, without \<open>execution_time\<close> (a difference of wall-clock readings) and
  \<open>intermediate_results\<close> (never filled by the executors). Its \<open>task_id\<close> is
  \<open>res_task_id\<close> here.
\<close>

record CoActResult =
  res_task_id :: string
  success :: bool
  strategy_used :: ExecutionStrategy
  steps_completed :: int
  total_steps :: int
  confidence :: real
  error_message :: "string option"

text \<open>
  The executors read \<open>task.task_id\<close> and \<open>complexity_analysis.get("estimated_steps", d)\<close>
  only: they take the task id and the entry of the dict (\<open>None\<close> when the key is
  missing). Python's \<open>hash\<close> on strings is a parameter; \<open>%\<close> with a positive modulus
  has a non-negative result, as \<open>mod\<close> on \<open>int\<close> has.
\<close>

definition steps_or :: "int \<Rightarrow> int option \<Rightarrow> int" where
  "steps_or dflt estimated = (case estimated of None \<Rightarrow> dflt | Some n \<Rightarrow> n)"

text \<open>\<open>range(n)\<close>\<close>

definition py_range :: "int \<Rightarrow> nat list" where
  "py_range n = [0..<nat n]"

text \<open>
  The loop of \<open>_execute_sequential\<close>: \<open>Inl\<close> is the simulated failure, with the steps
  completed so far and the message.
\<close>

fun sequential_steps ::
  "(string \<Rightarrow> int) \<Rightarrow> string \<Rightarrow> nat list \<Rightarrow> int \<Rightarrow> (int \<times> string) + int" where
  "sequential_steps hash tid [] completed_steps = Inr completed_steps"
| "sequential_steps hash tid (step # rest) completed_steps =
     (if step > 0 \<and> hash (tid @ str_nat step) mod 10 = 0
      then Inl (completed_steps + 1, ''Simulated failure at step '' @ str_nat (step + 1))
      else sequential_steps hash tid rest (completed_steps + 1))"

definition execute_sequential :: "(string \<Rightarrow> int) \<Rightarrow> string \<Rightarrow> int option \<Rightarrow> CoActResult" where
  "execute_sequential hash tid estimated =
     (let total = steps_or 3 estimated
      in case sequential_steps hash tid (py_range total) 0 of
           Inr completed_steps \<Rightarrow>
             \<lparr>res_task_id = tid, success = True, strategy_used = SEQUENTIAL_exec,
              steps_completed = completed_steps, total_steps = total, confidence = 0.85,
              error_message = None\<rparr>
         | Inl (completed_steps, msg) \<Rightarrow>
             \<lparr>res_task_id = tid, success = False, strategy_used = SEQUENTIAL_exec,
              steps_completed = completed_steps, total_steps = total, confidence = 0.3,
              error_message = Some msg\<rparr>)"

definition execute_parallel_step :: "(string \<Rightarrow> int) \<Rightarrow> string \<Rightarrow> nat \<Rightarrow> bool" where
  "execute_parallel_step hash tid step = (hash (tid @ str_nat step) mod 5 \<noteq> 0)"

text \<open>
  A gathered step returns a bool and never raises, so no element of \<open>results\<close> is an
  exception and \<open>sum(1 for r in results if not isinstance(r, Exception))\<close> counts them
  all.
\<close>

definition count_non_exceptions :: "bool list \<Rightarrow> int" where
  "count_non_exceptions results = int (length results)"

definition execute_parallel :: "(string \<Rightarrow> int) \<Rightarrow> string \<Rightarrow> int option \<Rightarrow> CoActResult" where
  "execute_parallel hash tid estimated =
     (let total = steps_or 3 estimated;
          results = map (execute_parallel_step hash tid) (py_range total);
          completed_steps = count_non_exceptions results;
          ok = (real_of_int completed_steps \<ge> real_of_int total * 0.7)
      in \<lparr>res_task_id = tid, success = ok, strategy_used = PARALLEL_exec,
          steps_completed = completed_steps, total_steps = total,
          confidence = (if ok then 0.75 else 0.4), error_message = None\<rparr>)"

text \<open>Phase 2 of \<open>_execute_hybrid\<close>: each step counts 1, and 0.5 more on a simulated retry.\<close>

fun hybrid_steps :: "(string \<Rightarrow> int) \<Rightarrow> string \<Rightarrow> nat list \<Rightarrow> real \<Rightarrow> real" where
  "hybrid_steps hash tid [] completed_steps = completed_steps"
| "hybrid_steps hash tid (step # rest) completed_steps =
     hybrid_steps hash tid rest
       (if hash (tid @ str_nat step) mod 8 = 0 then completed_steps + 1 + 0.5
        else completed_steps + 1)"

definition execute_hybrid :: "(string \<Rightarrow> int) \<Rightarrow> string \<Rightarrow> int option \<Rightarrow> CoActResult" where
  "execute_hybrid hash tid estimated =
     (let total = steps_or 5 estimated;
          init_results = map (execute_parallel_step hash tid) (py_range (min 3 total));
          completed0 = real_of_int (count_non_exceptions init_results);
          remaining_steps = total - 3;
          completed_steps =
             (if remaining_steps > 0 then hybrid_steps hash tid (py_range remaining_steps) completed0
              else completed0);
          ok = (completed_steps \<ge> real_of_int total * 0.6)
      in \<lparr>res_task_id = tid, success = ok, strategy_used = HYBRID_exec,
          steps_completed = py_int completed_steps, total_steps = total,
          confidence = (if ok then 0.85 else 0.5), error_message = None\<rparr>)"

subsection \<open>\<open>_execute_adaptive\<close>\<close>

text \<open>
  The loop over \<open>strategies_to_try\<close>. \<open>attempt s\<close> is what awaiting the executor of \<open>s\<close>
  gives: a result, or an exception (\<open>Inl\<close>, the \<open>except Exception: continue\<close> branch).
  The function returns the executors awaited, in order, with the result.
\<close>

fun adaptive_loop ::
  "(ExecutionStrategy \<Rightarrow> string + CoActResult) \<Rightarrow> ExecutionStrategy list
     \<Rightarrow> CoActResult option \<Rightarrow> ExecutionStrategy list \<times> CoActResult option \<times> bool" where
  "adaptive_loop attempt [] last_result = ([], last_result, False)"
| "adaptive_loop attempt (s # rest) last_result =
     (case attempt s of
        Inl e \<Rightarrow>
          (let (tried, r, returned) = adaptive_loop attempt rest last_result
           in (s # tried, r, returned))
      | Inr res \<Rightarrow>
          if success res then ([s], Some (res\<lparr>strategy_used := ADAPTIVE_exec\<rparr>), True)
          else (let (tried, r, returned) = adaptive_loop attempt rest (Some res)
                in (s # tried, r, returned)))"

definition strategies_to_try :: "ExecutionStrategy list" where
  "strategies_to_try = [HYBRID_exec, PARALLEL_exec, SEQUENTIAL_exec]"

definition execute_adaptive_with ::
  "(ExecutionStrategy \<Rightarrow> string + CoActResult) \<Rightarrow> string \<Rightarrow> int option
     \<Rightarrow> ExecutionStrategy list \<times> CoActResult" where
  "execute_adaptive_with attempt tid estimated =
     (case adaptive_loop attempt strategies_to_try None of
        (tried, Some res, True) \<Rightarrow> (tried, res)
      | (tried, Some last_result, False) \<Rightarrow> (tried, last_result\<lparr>strategy_used := ADAPTIVE_exec\<rparr>)
      | (tried, None, _) \<Rightarrow>
          (tried,
           \<lparr>res_task_id = tid, success = False, strategy_used = ADAPTIVE_exec,
            steps_completed = 0, total_steps = steps_or 1 estimated, confidence = 0.1,
            error_message = Some ''All strategies failed''\<rparr>))"

text \<open>
  The dispatch inside the loop (lines 660 to 665): anything but HYBRID and PARALLEL runs
  the sequential executor. The three executors catch their own exceptions.
\<close>

definition run_executor ::
  "(string \<Rightarrow> int) \<Rightarrow> string \<Rightarrow> int option \<Rightarrow> ExecutionStrategy \<Rightarrow> string + CoActResult" where
  "run_executor hash tid estimated s =
     (if s = HYBRID_exec then Inr (execute_hybrid hash tid estimated)
      else if s = PARALLEL_exec then Inr (execute_parallel hash tid estimated)
      else Inr (execute_sequential hash tid estimated))"

definition execute_adaptive :: "(string \<Rightarrow> int) \<Rightarrow> string \<Rightarrow> int option \<Rightarrow> CoActResult" where
  "execute_adaptive hash tid estimated =
     snd (execute_adaptive_with (run_executor hash tid estimated) tid estimated)"

section \<open>Notions used in the statements, and concrete inputs\<close>

text \<open>
  The net effect of any interleaving on the loads: each agent's load moves by the number
  of its calls begun minus the number of its calls finished.
\<close>

fun load_delta :: "string \<Rightarrow> event \<Rightarrow> int" where
  "load_delta aid (Begin b) = (if b = aid then 1 else 0)"
| "load_delta aid (End b oc) = (if b = aid then - 1 else 0)"

definition net_load :: "string \<Rightarrow> event list \<Rightarrow> int" where
  "net_load aid evs = sum_list (map (load_delta aid) evs)"

text \<open>The position of the first occurrence of an element in a list (its length if none).\<close>

definition first_pos :: "'a list \<Rightarrow> 'a \<Rightarrow> nat" where
  "first_pos xs k = length (takeWhile (\<lambda>x. x \<noteq> k) xs)"

definition worker :: "string \<Rightarrow> real \<Rightarrow> int \<Rightarrow> int \<Rightarrow> AgentCapability" where
  "worker aid s l m =
     \<lparr>agent_id = aid, specializations = [''executor''], performance_score = s,
      availability = True, current_load = l, max_load = m, skills = []\<rparr>"

definition plain_task :: "string \<Rightarrow> Task" where
  "plain_task tid =
     \<lparr>task_id = tid, task_type = ''job'', priority = NORMAL, req_specializations = [],
      req_skills = [], status = ''pending'', assigned_agents = [], result = None\<rparr>"

definition calm_world :: world where
  "calm_world =
     \<lparr>run_of = (\<lambda>a. Completed ''t0''), first_done = (\<lambda>a. True),
      str_of = (\<lambda>v. case v of AgentResult s a t ts \<Rightarrow> a | MergedResult vs n \<Rightarrow> ''merged''),
      arith = exact_ops, wait_takes_coroutines = True\<rparr>"


text \<open>
  What the routing of the task \<open>r\<close> may do to the bookkeeping between a state \<open>s\<close> and a
  later state \<open>s'\<close>: it touches no other task object, it keeps the ids, it appends at most
  \<open>r\<close> to \<open>completed_tasks\<close> and it removes at most the key of \<open>r\<close> from \<open>active_tasks\<close>.
\<close>

definition books :: "nat \<Rightarrow> orchestrator \<Rightarrow> orchestrator \<Rightarrow> bool" where
  "books r s s' =
     ((\<forall>x. x \<noteq> r \<longrightarrow> tasks s' ! x = tasks s ! x)
      \<and> length (tasks s') = length (tasks s)
      \<and> task_id (tasks s' ! r) = task_id (tasks s ! r)
      \<and> set (completed_tasks s') \<subseteq> insert r (set (completed_tasks s))
      \<and> (\<forall>k v. (k, v) \<in> set (active_tasks s) \<and> k \<noteq> task_id (tasks s ! r) \<longrightarrow>
                 (k, v) \<in> set (active_tasks s')))"

text \<open>Tasks routed one after the other, each in its own world.\<close>

fun route_all :: "(world \<times> nat) list \<Rightarrow> orchestrator \<Rightarrow> orchestrator" where
  "route_all [] st = st"
| "route_all ((w, ref) # rest) st = route_all rest (route_task w ref st)"

text \<open>An attempt of the adaptive cascade succeeds when it returns a successful result.\<close>

definition succeeds :: "(ExecutionStrategy \<Rightarrow> string + CoActResult) \<Rightarrow> ExecutionStrategy \<Rightarrow> bool" where
  "succeeds attempt s = (case attempt s of Inl e \<Rightarrow> False | Inr r \<Rightarrow> success r)"

text \<open>Executors made to fail or to succeed, with a given number of steps.\<close>

definition synthetic :: "ExecutionStrategy \<Rightarrow> bool \<Rightarrow> CoActResult" where
  "synthetic s ok =
     \<lparr>res_task_id = ''t1'', success = ok, strategy_used = s, steps_completed = 2,
      total_steps = 3, confidence = 0.5, error_message = None\<rparr>"

definition only_sequential_succeeds :: "ExecutionStrategy \<Rightarrow> string + CoActResult" where
  "only_sequential_succeeds s = Inr (synthetic s (s = SEQUENTIAL_exec))"


text \<open>
  An orchestrator under SEQUENTIAL with one executor agent and two submitted tasks, the
  first of which requires a specialization that no agent has.
\<close>

definition mixed_orchestrator :: orchestrator where
  "mixed_orchestrator =
     snd (submit_task ''t2'' ''job'' [] [] NORMAL
       (snd (submit_task ''t1'' ''job'' [''vision''] [] NORMAL
          (init_orchestrator\<lparr>agents := [worker ''a1'' 0.5 0 10], strategy := SEQUENTIAL\<rparr>))))"

text \<open>
  An orchestrator under HIERARCHICAL with one agent, registered as \<open>'general'\<close> with
  \<open>max_load = 0\<close>, and one submitted task.
\<close>

definition zero_capacity :: capabilities where
  "zero_capacity = \<lparr>cap_performance_score = None, cap_max_load = Some 0, cap_skills = None\<rparr>"

definition coordinator_orchestrator :: orchestrator where
  "coordinator_orchestrator =
     snd (submit_task ''t1'' ''job'' [] [] NORMAL
       (snd (register_agent ''c1'' [''general''] zero_capacity
          (set_strategy HIERARCHICAL init_orchestrator))))"

text \<open>An orchestrator with two agents of capacity 10 and one submitted task.\<close>

definition two_agents_orchestrator :: orchestrator where
  "two_agents_orchestrator =
     snd (submit_task ''t1'' ''job'' [] [] NORMAL
       (snd (register_agent ''a2'' [''executor'']
               \<lparr>cap_performance_score = Some 0.9, cap_max_load = None, cap_skills = None\<rparr>
          (snd (register_agent ''a1'' [''executor'']
               \<lparr>cap_performance_score = Some 0.5, cap_max_load = None, cap_skills = None\<rparr>
             (set_strategy PARALLEL init_orchestrator))))))"

section \<open>Load accounting\<close>

lemma length_upd_agent [simp]: "length (upd_agent aid f reg) = length reg"
  by (simp add: upd_agent_def)

lemma ids_exec_begin [simp]: "map agent_id (exec_begin aid reg) = map agent_id reg"
  by (simp add: exec_begin_def upd_agent_def)

lemma ids_exec_finish [simp]: "map agent_id (exec_finish aid oc reg) = map agent_id reg"
  by (simp add: exec_finish_def upd_agent_def)

lemma maxload_exec_begin [simp]: "map max_load (exec_begin aid reg) = map max_load reg"
  by (simp add: exec_begin_def upd_agent_def)

lemma maxload_exec_finish [simp]: "map max_load (exec_finish aid oc reg) = map max_load reg"
  by (simp add: exec_finish_def upd_agent_def)

lemma loads_execute_on_agent:
  "map current_load (snd (execute_on_agent aid tid oc reg)) = map current_load reg"
  by (simp add: execute_on_agent_def exec_finish_def exec_begin_def upd_agent_def)

lemma loads_dispatch_cycles:
  "map current_load (dispatch_cycles cs reg) = map current_load reg"
  by (induction cs reg rule: dispatch_cycles.induct) (simp_all add: loads_execute_on_agent)

lemma ids_apply_event [simp]: "map agent_id (apply_event reg ev) = map agent_id reg"
  by (cases ev) simp_all

lemma maxload_apply_event [simp]: "map max_load (apply_event reg ev) = map max_load reg"
  by (cases ev) simp_all

lemma load_apply_event:
  "i < length reg \<Longrightarrow>
   current_load (apply_event reg ev ! i) = current_load (reg ! i) + load_delta (agent_id (reg ! i)) ev"
  by (cases ev) (auto simp add: exec_begin_def exec_finish_def upd_agent_def)

lemma id_apply_event: "i < length reg \<Longrightarrow> agent_id (apply_event reg ev ! i) = agent_id (reg ! i)"
  by (cases ev) (auto simp add: exec_begin_def exec_finish_def upd_agent_def)

lemma length_apply_event [simp]: "length (apply_event reg ev) = length reg"
  by (cases ev) (simp_all add: exec_begin_def exec_finish_def)

lemma run_events_Nil [simp]: "run_events [] reg = reg"
  by (simp add: run_events_def)

lemma run_events_Cons [simp]: "run_events (ev # evs) reg = run_events evs (apply_event reg ev)"
  by (simp add: run_events_def)

lemma run_events_append: "run_events (es @ fs) reg = run_events fs (run_events es reg)"
  by (simp add: run_events_def)

lemma ids_run_events [simp]: "map agent_id (run_events evs reg) = map agent_id reg"
  by (induction evs arbitrary: reg) simp_all

lemma maxload_run_events [simp]: "map max_load (run_events evs reg) = map max_load reg"
  by (induction evs arbitrary: reg) simp_all

lemma length_run_events [simp]: "length (run_events evs reg) = length reg"
  using ids_run_events [of evs reg] by (metis length_map)

lemma load_run_events:
  "i < length reg \<Longrightarrow>
   current_load (run_events evs reg ! i) = current_load (reg ! i) + net_load (agent_id (reg ! i)) evs"
proof (induction evs arbitrary: reg)
  case Nil
  show ?case by (simp add: net_load_def)
next
  case (Cons ev evs)
  have "current_load (run_events (ev # evs) reg ! i) =
          current_load (apply_event reg ev ! i) + net_load (agent_id (apply_event reg ev ! i)) evs"
    using Cons.IH [of "apply_event reg ev"] Cons.prems by simp
  then show ?case
    using Cons.prems by (simp add: load_apply_event id_apply_event net_load_def)
qed

lemma net_load_append: "net_load aid (es @ fs) = net_load aid es + net_load aid fs"
  by (simp add: net_load_def)

lemma net_load_begins: "net_load aid (map Begin ids) = int (count_list ids aid)"
  by (induction ids) (simp_all add: net_load_def)

lemma net_load_ends: "net_load aid (map (\<lambda>a. End a (oc a)) ids) = - int (count_list ids aid)"
  by (induction ids) (simp_all add: net_load_def)

lemma net_load_schedule [simp]: "net_load aid (schedule oc ids) = 0"
  by (simp add: schedule_def net_load_append net_load_begins net_load_ends)

lemma loads_schedule: "map current_load (run_events (schedule oc ids) reg) = map current_load reg"
  by (rule nth_equalityI) (simp_all add: load_run_events)

section \<open>Performance feedback\<close>

lemma update_score_bounds:
  "0 \<le> s \<Longrightarrow> s \<le> 1 \<Longrightarrow> 0 \<le> update_score oc s \<and> update_score oc s \<le> 1"
  by (simp add: update_score_def split: outcome.splits agent_run.splits)

lemma score_execute_on_agent:
  "i < length reg \<Longrightarrow>
   performance_score (snd (execute_on_agent aid tid oc reg) ! i) =
     (if agent_id (reg ! i) = aid then update_score oc (performance_score (reg ! i))
      else performance_score (reg ! i))"
  by (simp add: execute_on_agent_def exec_finish_def exec_begin_def upd_agent_def)

text \<open>
  C2. An agent whose score lies in [0,1] before a call of \<open>_execute_on_agent\<close> has a
  score in [0,1] after it. When the call was on that agent, the new score is
  \<open>min 1.0 (score + 0.01)\<close> if the execution completed and \<open>max 0.0 (score - 0.05)\<close> if
  it raised; the score of every other agent is unchanged.
\<close>

theorem performance_score_update:
  assumes "i < length reg"
    and "0 \<le> performance_score (reg ! i)"
    and "performance_score (reg ! i) \<le> 1"
  shows "0 \<le> performance_score (snd (execute_on_agent aid tid oc reg) ! i)
       \<and> performance_score (snd (execute_on_agent aid tid oc reg) ! i) \<le> 1
       \<and> (agent_id (reg ! i) = aid \<and> oc = Finished (Completed ts) \<longrightarrow>
            performance_score (snd (execute_on_agent aid tid oc reg) ! i)
              = min 1.0 (performance_score (reg ! i) + 0.01))
       \<and> (agent_id (reg ! i) = aid \<and> oc = Finished (Raised msg) \<longrightarrow>
            performance_score (snd (execute_on_agent aid tid oc reg) ! i)
              = max 0.0 (performance_score (reg ! i) - 0.05))
       \<and> (agent_id (reg ! i) \<noteq> aid \<longrightarrow>
            performance_score (snd (execute_on_agent aid tid oc reg) ! i)
              = performance_score (reg ! i))"
  using assms update_score_bounds [of "performance_score (reg ! i)" oc]
  by (simp add: score_execute_on_agent update_score_def)

theorem performance_score_update_witness:
  "performance_score
     (snd (execute_on_agent ''a1'' ''t1'' (Finished (Completed ''now''))
             [worker ''a1'' 0.995 0 10]) ! 0) = 1
   \<and> performance_score
     (snd (execute_on_agent ''a1'' ''t1'' (Finished (Raised ''boom''))
             [worker ''a1'' 0.02 0 10]) ! 0) = 0"
proof -
  have a: "performance_score
     (snd (execute_on_agent ''a1'' ''t1'' (Finished (Completed ''now''))
             [worker ''a1'' 0.995 0 10]) ! 0) = 1"
    using performance_score_update
      [of 0 "[worker ''a1'' 0.995 0 10]" "''a1''" "''t1''" "Finished (Completed ''now'')"
          "''now''" "''boom''"]
    by (simp add: worker_def)
  have b: "performance_score
     (snd (execute_on_agent ''a1'' ''t1'' (Finished (Raised ''boom''))
             [worker ''a1'' 0.02 0 10]) ! 0) = 0"
    using performance_score_update
      [of 0 "[worker ''a1'' 0.02 0 10]" "''a1''" "''t1''" "Finished (Raised ''boom'')"
          "''now''" "''boom''"]
    by (simp add: worker_def)
  show ?thesis using a b by simp
qed

section \<open>What routing does to the registry\<close>

lemma agents_set_task [simp]: "agents (set_task ref f st) = agents st"
  by (simp add: set_task_def)

lemma agents_fail_task [simp]: "agents (fail_task ref st) = agents st"
  by (simp add: fail_task_def)

lemma agents_complete_task [simp]: "agents (complete_task ref st) = agents st"
  by (simp add: complete_task_def)

lemma agents_dispatch_one:
  "agents (snd (dispatch_one w aid ref st)) =
     run_events (schedule (\<lambda>a. Finished (run_of w a)) [aid]) (agents st)"
  by (simp add: dispatch_one_def execute_on_agent_def schedule_def Let_def split: sum.splits)

lemma length_create_subtasks [simp]: "length (create_subtasks task n) = n"
  by (simp add: create_subtasks_def)

lemma fst_calls_plain: "map fst (map (\<lambda>a. (agent_id a, tid)) sel) = map agent_id sel"
  by simp

lemma fst_calls_zip:
  "length sel = length subs \<Longrightarrow>
   map (fst \<circ> (\<lambda>(agent, subtask). (agent_id agent, task_id subtask))) (zip sel subs) =
     map agent_id sel"
  by (induction sel subs rule: list_induct2) simp_all

lemma snd_gather_exec:
  "snd (gather_exec run calls reg) =
     run_events (schedule (\<lambda>a. Finished (run a)) (map fst calls)) reg"
  by (simp add: gather_exec_def)

lemma agents_sequential:
  "agents (snd (sequential_routing w ref st)) =
     run_events (route_events w SEQUENTIAL (agents st) (tasks st ! ref)) (agents st)"
proof (cases "find_suitable_agents (arith w) (agents st) (tasks st ! ref)")
  case (Inl e)
  then show ?thesis
    by (simp add: sequential_routing_def route_events_def dispatched_def schedule_def)
next
  case (Inr suitable)
  then show ?thesis
    by (cases suitable)
       (simp_all add: sequential_routing_def route_events_def dispatched_def top_ids_def
          agents_dispatch_one schedule_def)
qed

lemma agents_adaptive:
  "agents (snd (adaptive_routing w ref st)) =
     run_events (schedule (\<lambda>a. Finished (run_of w a)) (adaptive_ids (arith w) (agents st) (tasks st ! ref)))
       (agents st)"
proof (cases "find_suitable_agents (arith w) (agents st) (tasks st ! ref)")
  case (Inl e)
  then show ?thesis by (simp add: adaptive_routing_def adaptive_ids_def schedule_def)
next
  case (Inr suitable)
  then show ?thesis
    by (cases suitable)
       (simp_all add: adaptive_routing_def adaptive_ids_def agents_dispatch_one schedule_def)
qed

lemma agents_hierarchical:
  "agents (snd (hierarchical_routing w ref st)) =
     run_events (route_events w HIERARCHICAL (agents st) (tasks st ! ref)) (agents st)"
  by (cases "find_coordinator (agents st)")
     (simp_all add: hierarchical_routing_def route_events_def dispatched_def agents_adaptive
        agents_dispatch_one)

lemma agents_parallel_top3:
  "find_suitable_agents (arith w) (agents st) (tasks st ! ref) = Inr suitable \<Longrightarrow>
   agents (snd (parallel_routing w ref st)) =
     run_events (schedule (\<lambda>a. Finished (run_of w a)) (top_ids 3 suitable)) (agents st)"
  by (cases "suitable = []")
     (simp_all add: parallel_routing_def gather_exec_def top_ids_def Let_def schedule_def
        comp_def)

lemma agents_parallel:
  "agents (snd (parallel_routing w ref st)) =
     run_events (route_events w PARALLEL (agents st) (tasks st ! ref)) (agents st)"
proof (cases "find_suitable_agents (arith w) (agents st) (tasks st ! ref)")
  case (Inl e)
  then show ?thesis
    by (simp add: parallel_routing_def route_events_def dispatched_def schedule_def)
next
  case (Inr suitable)
  then show ?thesis
    by (simp add: agents_parallel_top3 route_events_def dispatched_def)
qed

lemma agents_consensus:
  "agents (snd (consensus_routing w ref st)) =
     run_events (route_events w CONSENSUS (agents st) (tasks st ! ref)) (agents st)"
proof (cases "find_suitable_agents (arith w) (agents st) (tasks st ! ref)")
  case (Inl e)
  then show ?thesis
    by (simp add: consensus_routing_def route_events_def dispatched_def schedule_def)
next
  case (Inr suitable)
  show ?thesis
  proof (cases "length suitable < 3")
    case True
    then show ?thesis
      using Inr by (simp add: consensus_routing_def agents_parallel_top3 route_events_def
          dispatched_def)
  next
    case False
    then show ?thesis
      using Inr by (simp add: consensus_routing_def gather_exec_def top_ids_def Let_def
          route_events_def dispatched_def comp_def)
  qed
qed

lemma agents_competitive:
  "agents (snd (competitive_routing w ref st)) =
     run_events (route_events w COMPETITIVE (agents st) (tasks st ! ref)) (agents st)"
proof (cases "find_suitable_agents (arith w) (agents st) (tasks st ! ref)")
  case (Inl e)
  then show ?thesis
    by (simp add: competitive_routing_def route_events_def dispatched_def schedule_def)
next
  case (Inr suitable)
  show ?thesis
  proof (cases "wait_takes_coroutines w")
    case True
    then show ?thesis
      using Inr
      by (cases "suitable = []")
         (simp_all add: competitive_routing_def route_events_def dispatched_def top_ids_def
            Let_def schedule_def split: list.splits sum.splits)
  next
    case False
    then show ?thesis
      using Inr
      by (cases "suitable = []")
         (simp_all add: competitive_routing_def route_events_def Let_def)
  qed
qed

lemma agents_collaborative:
  "agents (snd (collaborative_routing w ref st)) =
     run_events (route_events w COLLABORATIVE (agents st) (tasks st ! ref)) (agents st)"
proof (cases "find_suitable_agents (arith w) (agents st) (tasks st ! ref)")
  case (Inl e)
  then show ?thesis
    by (simp add: collaborative_routing_def route_events_def dispatched_def schedule_def)
next
  case (Inr suitable)
  show ?thesis
  proof (cases "suitable = []")
    case True
    then show ?thesis
      using Inr
      by (simp add: collaborative_routing_def route_events_def dispatched_def top_ids_def
          schedule_def)
  next
    case False
    have len: "\<And>t. length (take (min 4 (length suitable)) suitable) =
                 length (create_subtasks t (length (take (min 4 (length suitable)) suitable)))"
      by simp
    show ?thesis
      using Inr False
      by (simp add: collaborative_routing_def route_events_def dispatched_def top_ids_def
          Let_def split_beta snd_gather_exec fst_calls_zip [OF len] del: length_take)
  qed
qed

lemma agents_route_task:
  "agents (route_task w ref st) =
     run_events (route_events w (strategy st) (agents st) (tasks st ! ref)) (agents st)"
proof -
  have fin: "\<And>p. agents (case fst p of None \<Rightarrow> snd p | Some e \<Rightarrow> fail_task ref (snd p))
                 = agents (snd p)"
    by (simp split: option.splits)
  show ?thesis
  proof (cases "strategy st")
    case SEQUENTIAL
    then show ?thesis
      using fin [of "sequential_routing w ref st"]
      by (simp add: route_task_def agents_sequential split_beta)
  next
    case PARALLEL
    then show ?thesis
      using fin [of "parallel_routing w ref st"]
      by (simp add: route_task_def agents_parallel split_beta)
  next
    case HIERARCHICAL
    then show ?thesis
      using fin [of "hierarchical_routing w ref st"]
      by (simp add: route_task_def agents_hierarchical split_beta)
  next
    case CONSENSUS
    then show ?thesis
      using fin [of "consensus_routing w ref st"]
      by (simp add: route_task_def agents_consensus split_beta)
  next
    case COMPETITIVE
    then show ?thesis
      using fin [of "competitive_routing w ref st"]
      by (simp add: route_task_def agents_competitive split_beta)
  next
    case COLLABORATIVE
    then show ?thesis
      using fin [of "collaborative_routing w ref st"]
      by (simp add: route_task_def agents_collaborative split_beta)
  next
    case ADAPTIVE
    then show ?thesis
      using fin [of "adaptive_routing w ref st"]
      by (simp add: route_task_def agents_adaptive route_events_def dispatched_def split_beta)
  qed
qed

lemma route_events_schedule:
  "\<exists>oc ids. route_events w s reg task = schedule oc ids
     \<and> (ids = [] \<or> ids = dispatched (arith w) s reg task)"
proof (cases "s = COMPETITIVE \<and> \<not> wait_takes_coroutines w")
  case True
  then have "route_events w s reg task = schedule (race_outcome w) []"
    by (simp add: route_events_def schedule_def)
  then show ?thesis by blast
next
  case False
  then have "route_events w s reg task =
               schedule (if s = COMPETITIVE then race_outcome w else (\<lambda>a. Finished (run_of w a)))
                 (dispatched (arith w) s reg task)"
    by (auto simp add: route_events_def)
  then show ?thesis by blast
qed

lemma loads_route_events:
  "map current_load (run_events (route_events w s reg task) reg') = map current_load reg'"
proof -
  obtain oc ids where "route_events w s reg task = schedule oc ids"
    using route_events_schedule [of w s reg task] by blast
  then show ?thesis by (simp add: loads_schedule)
qed

text \<open>
  C1. A call of \<open>_execute_on_agent\<close> leaves every agent's \<open>current_load\<close> as it found
  it, whether the execution completes, raises or is cancelled; so does any sequence of
  such calls, and so does the routing of a task under each of the seven strategies, with
  its concurrent calls.
\<close>

theorem no_load_leak:
  "map current_load (snd (execute_on_agent aid tid oc reg)) = map current_load reg
   \<and> map current_load (dispatch_cycles cs reg) = map current_load reg
   \<and> map current_load (agents (route_task w ref st)) = map current_load (agents st)"
  by (simp add: loads_execute_on_agent loads_dispatch_cycles agents_route_task loads_route_events)

section \<open>Consensus Aggregator\<close>

lemma keys_counter_incr:
  "map fst (counter_incr c k) = (if k \<in> fst ` set c then map fst c else map fst c @ [k])"
  by (induction c k rule: counter_incr.induct) auto

lemma map_of_counter_incr:
  "map_of (counter_incr c k) =
     (map_of c)(k \<mapsto> (case map_of c k of None \<Rightarrow> 1 | Some n \<Rightarrow> n + 1))"
  by (induction c k rule: counter_incr.induct) (auto simp add: fun_eq_iff)

lemma Counter_snoc: "Counter (xs @ [x]) = counter_incr (Counter xs) x"
  by (simp add: Counter_def)

lemma keys_Counter: "set (map fst (Counter xs)) = set xs"
proof (induction xs rule: rev_induct)
  case Nil
  show ?case by (simp add: Counter_def)
next
  case (snoc x xs)
  then show ?case by (auto simp add: Counter_snoc keys_counter_incr)
qed

lemma map_of_Counter:
  "map_of (Counter xs) k = (if k \<in> set xs then Some (count_list xs k) else None)"
proof (induction xs arbitrary: k rule: rev_induct)
  case Nil
  show ?case by (simp add: Counter_def)
next
  case (snoc x xs)
  show ?case
    using snoc [of x] snoc [of k] by (simp add: Counter_snoc map_of_counter_incr)
qed

lemma distinct_keys_Counter: "distinct (map fst (Counter xs))"
proof (induction xs rule: rev_induct)
  case Nil
  show ?case by (simp add: Counter_def)
next
  case (snoc x xs)
  then show ?case
    by (simp add: Counter_snoc keys_counter_incr)
qed

lemma Counter_item_count: "(k, c) \<in> set (Counter xs) \<Longrightarrow> k \<in> set xs \<and> c = count_list xs k"
proof -
  assume m: "(k, c) \<in> set (Counter xs)"
  then have "map_of (Counter xs) k = Some c"
    using distinct_keys_Counter [of xs] by simp
  then show ?thesis
    by (simp add: map_of_Counter split: if_splits)
qed

lemma first_pos_less: "k \<in> set xs \<Longrightarrow> first_pos xs k < length xs"
  unfolding first_pos_def
  by (induction xs) auto

lemma first_pos_snoc_old: "k \<in> set xs \<Longrightarrow> first_pos (xs @ [x]) k = first_pos xs k"
  unfolding first_pos_def by (induction xs) auto

lemma first_pos_snoc_new: "x \<notin> set xs \<Longrightarrow> first_pos (xs @ [x]) x = length xs"
  unfolding first_pos_def by (induction xs) auto

lemma Counter_in_first_order:
  "sorted_wrt (\<lambda>a b. first_pos xs a < first_pos xs b) (map fst (Counter xs))"
proof (induction xs rule: rev_induct)
  case Nil
  show ?case by (simp add: Counter_def)
next
  case (snoc x xs)
  have old: "sorted_wrt (\<lambda>a b. first_pos (xs @ [x]) a < first_pos (xs @ [x]) b)
               (map fst (Counter xs))"
  proof (rule sorted_wrt_mono_rel [OF _ snoc.IH])
    fix a b
    assume "a \<in> set (map fst (Counter xs))" "b \<in> set (map fst (Counter xs))"
      and "first_pos xs a < first_pos xs b"
    then have "a \<in> set xs" "b \<in> set xs" "first_pos xs a < first_pos xs b"
      using keys_Counter [of xs] by auto
    then show "first_pos (xs @ [x]) a < first_pos (xs @ [x]) b"
      by (simp add: first_pos_snoc_old)
  qed
  show ?case
  proof (cases "x \<in> set xs")
    case True
    then have "x \<in> fst ` set (Counter xs)"
      using keys_Counter [of xs] by simp
    then show ?thesis
      using old by (simp add: Counter_snoc keys_counter_incr)
  next
    case False
    then have nk: "x \<notin> fst ` set (Counter xs)"
      using keys_Counter [of xs] by simp
    have "\<forall>a \<in> set xs. first_pos (xs @ [x]) a < first_pos (xs @ [x]) x"
      using False by (simp add: first_pos_snoc_old first_pos_snoc_new first_pos_less)
    then have "\<forall>a \<in> set (map fst (Counter xs)). first_pos (xs @ [x]) a < first_pos (xs @ [x]) x"
      using keys_Counter [of xs] by blast
    then show ?thesis
      using old nk by (simp add: Counter_snoc keys_counter_incr sorted_wrt_append)
  qed
qed

lemma py_max_ge: "\<forall>y \<in> set (b # xs). key y \<le> key (py_max key b xs)"
proof (induction xs arbitrary: b)
  case Nil
  show ?case by simp
next
  case (Cons x xs)
  show ?case
  proof (cases "key b < key x")
    case True
    then show ?thesis
      using Cons [of x] by auto
  next
    case False
    then show ?thesis
      using Cons [of b] by auto
  qed
qed

lemma py_max_first:
  "\<exists>pre post. b # xs = pre @ py_max key b xs # post
     \<and> (\<forall>y \<in> set pre. key y < key (py_max key b xs))"
proof (induction xs arbitrary: b)
  case Nil
  show ?case by (rule exI [of _ "[]"]) simp
next
  case (Cons x xs)
  show ?case
  proof (cases "key b < key x")
    case True
    then have eq: "py_max key b (x # xs) = py_max key x xs"
      by simp
    from Cons [of x] obtain pre post where
      d: "x # xs = pre @ py_max key x xs # post"
      and s: "\<forall>y \<in> set pre. key y < key (py_max key x xs)"
      by blast
    have "key x \<le> key (py_max key x xs)"
      using py_max_ge [of x xs key] by simp
    then have lt: "key b < key (py_max key x xs)"
      using True by simp
    have "b # x # xs = (b # pre) @ py_max key x xs # post"
      using d by simp
    moreover have "\<forall>y \<in> set (b # pre). key y < key (py_max key x xs)"
      using s lt by simp
    ultimately show ?thesis
      unfolding eq by (intro exI [of _ "b # pre"] exI [of _ post] conjI)
  next
    case False
    then have eq: "py_max key b (x # xs) = py_max key b xs"
      by simp
    from Cons [of b] obtain pre post where
      d: "b # xs = pre @ py_max key b xs # post"
      and s: "\<forall>y \<in> set pre. key y < key (py_max key b xs)"
      by blast
    show ?thesis
    proof (cases pre)
      case Nil
      have "b # xs = py_max key b xs # post"
        using d unfolding Nil by (simp only: append_Nil)
      then have "b # x # xs = [] @ py_max key b xs # (x # post)"
        by (metis append_Nil list.inject)
      moreover have "\<forall>y \<in> set []. key y < key (py_max key b xs)"
        by simp
      ultimately show ?thesis
        unfolding eq by (intro exI [of _ "[]"] exI [of _ "x # post"] conjI)
    next
      case (Cons p pre')
      have "b # xs = p # (pre' @ py_max key b xs # post)"
        using d unfolding Cons by (simp only: append_Cons)
      then have pb: "p = b" and xs: "xs = pre' @ py_max key b xs # post"
        by (metis list.inject)+
      have "key b < key (py_max key b xs)"
        using s Cons pb by simp
      then have lt: "key x < key (py_max key b xs)"
        using False by simp
      have "b # x # xs = (b # x # pre') @ py_max key b xs # post"
        using xs by simp
      moreover have "\<forall>y \<in> set (b # x # pre'). key y < key (py_max key b xs)"
        using s Cons pb lt by simp
      ultimately show ?thesis
        unfolding eq by (intro exI [of _ "b # x # pre'"] exI [of _ post] conjI)
    qed
  qed
qed

lemma find_decomp:
  "find P xs = Some r \<Longrightarrow> \<exists>pre post. xs = pre @ r # post \<and> P r \<and> (\<forall>y \<in> set pre. \<not> P y)"
proof (induction xs)
  case Nil
  then show ?case by simp
next
  case (Cons x xs)
  show ?case
  proof (cases "P x")
    case True
    then have "x = r" using Cons.prems by simp
    then have "x # xs = [] @ r # xs \<and> P r \<and> (\<forall>y \<in> set []. \<not> P y)"
      using True by simp
    then show ?thesis by blast
  next
    case False
    then have "find P xs = Some r" using Cons.prems by simp
    then obtain pre post where "xs = pre @ r # post" "P r" "\<forall>y \<in> set pre. \<not> P y"
      using Cons.IH by blast
    then have "x # xs = (x # pre) @ r # post \<and> P r \<and> (\<forall>y \<in> set (x # pre). \<not> P y)"
      using False by simp
    then show ?thesis by blast
  qed
qed

lemma Counter_has_item: "k \<in> set xs \<Longrightarrow> (k, count_list xs k) \<in> set (Counter xs)"
  by (rule map_of_SomeD) (simp add: map_of_Counter)

lemma consensus_example:
  "achieve_consensus (\<lambda>s. s) [''A'', ''A'', ''B'', ''A'', ''C''] = Some ''A''"
  by (simp add: achieve_consensus_def Counter_def most_common_1_def)

lemma consensus_characterised:
  assumes ne: "results \<noteq> []"
  shows "\<exists>r. achieve_consensus str results = Some r \<and> r \<in> set results
       \<and> (\<forall>x \<in> set results.
             count_list (map str results) (str x) \<le> count_list (map str results) (str r))
       \<and> (\<forall>x \<in> set results.
             count_list (map str results) (str x) = count_list (map str results) (str r) \<longrightarrow>
             first_pos (map str results) (str r) \<le> first_pos (map str results) (str x))
       \<and> (\<exists>pre post. results = pre @ r # post \<and> (\<forall>y \<in> set pre. str y \<noteq> str r))"
proof -
  define ks where "ks = map str results"
  define items where "items = Counter ks"
  have ks_ne: "set ks \<noteq> {}" using ne by (simp add: ks_def)
  then have "set (map fst items) \<noteq> {}"
    using keys_Counter [of ks] by (simp add: items_def)
  then obtain x xs where items: "items = x # xs"
    by (cases items) auto
  define m where "m = py_max snd x xs"
  have mc1: "most_common_1 items = [m]"
    by (simp add: most_common_1_def items m_def)
  have ge: "\<forall>y \<in> set items. snd y \<le> snd m"
    using py_max_ge [of x xs snd] by (simp only: items m_def)
  obtain pre post where dec: "items = pre @ m # post"
    and strict: "\<forall>y \<in> set pre. snd y < snd m"
    using py_max_first [of x xs snd] unfolding items m_def by blast
  have m_in: "(fst m, snd m) \<in> set (Counter ks)"
    using dec by (simp add: items_def [symmetric])
  then have mk: "fst m \<in> set ks" and mcount: "snd m = count_list ks (fst m)"
    using Counter_item_count [of "fst m" "snd m" ks] by simp_all
  have "\<exists>r. find (\<lambda>r. str r = fst m) results = Some r"
  proof (cases "find (\<lambda>r. str r = fst m) results")
    case None
    then have "\<forall>r \<in> set results. str r \<noteq> fst m"
      by (simp add: find_None_iff)
    then show ?thesis
      using mk by (auto simp add: ks_def)
  next
    case (Some r)
    then show ?thesis by simp
  qed
  then obtain r where fr: "find (\<lambda>r. str r = fst m) results = Some r"
    by blast
  then obtain rpre rpost where rdec: "results = rpre @ r # rpost"
    and rstr: "str r = fst m" and rfirst: "\<forall>y \<in> set rpre. str y \<noteq> fst m"
    using find_decomp [of "\<lambda>r. str r = fst m" results r] by blast
  have res: "achieve_consensus str results = Some r"
    using ne mc1 fr
    by (cases m) (simp add: achieve_consensus_def items_def [symmetric] ks_def [symmetric])
  have r_in: "r \<in> set results"
    using rdec by simp
  have most: "\<forall>x \<in> set results. count_list ks (str x) \<le> count_list ks (str r)"
  proof
    fix x assume "x \<in> set results"
    then have "str x \<in> set ks" by (simp add: ks_def)
    then have "(str x, count_list ks (str x)) \<in> set items"
      unfolding items_def by (rule Counter_has_item)
    then have "count_list ks (str x) \<le> snd m"
      using ge by fastforce
    then show "count_list ks (str x) \<le> count_list ks (str r)"
      by (simp add: rstr mcount)
  qed
  have order: "sorted_wrt (\<lambda>a b. first_pos ks a < first_pos ks b)
                 (map fst pre @ fst m # map fst post)"
    using Counter_in_first_order [of ks] by (simp add: items_def [symmetric] dec)
  have tie: "\<forall>x \<in> set results. count_list ks (str x) = count_list ks (str r) \<longrightarrow>
               first_pos ks (str r) \<le> first_pos ks (str x)"
  proof (intro ballI impI)
    fix x assume xin: "x \<in> set results"
      and eq: "count_list ks (str x) = count_list ks (str r)"
    from xin have "str x \<in> set ks" by (simp add: ks_def)
    then have it: "(str x, count_list ks (str x)) \<in> set items"
      unfolding items_def by (rule Counter_has_item)
    have cm: "count_list ks (str x) = snd m"
      using eq by (simp add: rstr mcount)
    have "(str x, snd m) \<notin> set pre"
      using strict by fastforce
    then have "(str x, snd m) = m \<or> (str x, snd m) \<in> set post"
      using it cm dec by auto
    then show "first_pos ks (str r) \<le> first_pos ks (str x)"
    proof
      assume "(str x, snd m) = m"
      then have "str x = fst m" by (metis fst_conv)
      then show ?thesis by (simp add: rstr)
    next
      assume "(str x, snd m) \<in> set post"
      then have "str x \<in> set (map fst post)" by force
      then have "first_pos ks (fst m) < first_pos ks (str x)"
        using order by (auto simp add: sorted_wrt_append)
      then show ?thesis by (simp add: rstr)
    qed
  qed
  have "\<exists>pre post. results = pre @ r # post \<and> (\<forall>y \<in> set pre. str y \<noteq> str r)"
    using rdec rfirst rstr by auto
  then show ?thesis
    using res r_in most tie unfolding ks_def by blast
qed

text \<open>
  C4. On a non-empty list of results the Consensus Aggregator returns one of them, one
  whose string occurs most often among the strings of the results; among the strings that
  occur as often, its string is the one that appears first in the input, and the result
  returned is the first one with that string. On \<open>["A","A","B","A","C"]\<close> (Python's \<open>str\<close>
  of a string is the string) it returns \<open>"A"\<close>.
\<close>

theorem consensus_most_frequent_first_seen:
  assumes "results \<noteq> []"
  shows "(\<exists>r. achieve_consensus str results = Some r \<and> r \<in> set results
           \<and> (\<forall>x \<in> set results.
                 count_list (map str results) (str x) \<le> count_list (map str results) (str r))
           \<and> (\<forall>x \<in> set results.
                 count_list (map str results) (str x) = count_list (map str results) (str r) \<longrightarrow>
                 first_pos (map str results) (str r) \<le> first_pos (map str results) (str x))
           \<and> (\<exists>pre post. results = pre @ r # post \<and> (\<forall>y \<in> set pre. str y \<noteq> str r)))
       \<and> achieve_consensus (\<lambda>s. s) [''A'', ''A'', ''B'', ''A'', ''C''] = Some ''A''"
  using consensus_characterised [OF assms] consensus_example by blast

theorem consensus_most_frequent_first_seen_witness:
  "[''B'', ''A'', ''A'', ''B''] \<noteq> []
   \<and> achieve_consensus (\<lambda>s. s) [''B'', ''A'', ''A'', ''B''] = Some ''B''
   \<and> achieve_consensus (\<lambda>s. s) [''A'', ''A'', ''B'', ''A'', ''C''] = Some ''A''"
proof -
  have ne: "[''B'', ''A'', ''A'', ''B''] \<noteq> []" by simp
  have ex: "achieve_consensus (\<lambda>s. s) [''A'', ''A'', ''B'', ''A'', ''C''] = Some ''A''"
    using consensus_most_frequent_first_seen [OF ne, of "\<lambda>s. s"] by blast
  have "achieve_consensus (\<lambda>s. s) [''B'', ''A'', ''A'', ''B''] = Some ''B''"
    by (simp add: achieve_consensus_def Counter_def most_common_1_def)
  then show ?thesis using ne ex by simp
qed

section \<open>Complexity Analyzer\<close>

lemma level_of_analysis:
  "complexity_level (analyze_task_complexity fl d) =
     level_of_score (complexity_score (analyze_task_complexity fl d))"
  by (simp add: analyze_task_complexity_def Let_def split_beta)

text \<open>
  C5. The tier that \<open>analyze_task_complexity\<close> returns is a function of the score it
  returns, with inclusive upper bounds: SIMPLE up to 2.0, MODERATE above 2.0 up to 4.0,
  COMPLEX above 4.0 up to 6.0, VERY\_COMPLEX above 6.0. A score of exactly 2.0 is SIMPLE
  and a score of 2.01 is MODERATE.
\<close>

theorem complexity_tier_thresholds:
  "(complexity_score (analyze_task_complexity fl d) \<le> 2.0 \<longrightarrow>
      complexity_level (analyze_task_complexity fl d) = SIMPLE)
   \<and> (2.0 < complexity_score (analyze_task_complexity fl d)
        \<and> complexity_score (analyze_task_complexity fl d) \<le> 4.0 \<longrightarrow>
      complexity_level (analyze_task_complexity fl d) = MODERATE)
   \<and> (4.0 < complexity_score (analyze_task_complexity fl d)
        \<and> complexity_score (analyze_task_complexity fl d) \<le> 6.0 \<longrightarrow>
      complexity_level (analyze_task_complexity fl d) = COMPLEX)
   \<and> (6.0 < complexity_score (analyze_task_complexity fl d) \<longrightarrow>
      complexity_level (analyze_task_complexity fl d) = VERY_COMPLEX)
   \<and> complexity_level (analyze_task_complexity fl d) =
        level_of_score (complexity_score (analyze_task_complexity fl d))
   \<and> level_of_score 2.0 = SIMPLE
   \<and> level_of_score 2.01 = MODERATE"
  by (simp add: level_of_analysis) (simp add: level_of_score_def)

theorem complexity_tier_thresholds_witness:
  "complexity_score (analyze_task_complexity exact_ops ''Optimize it'') = 2.0
   \<and> complexity_level (analyze_task_complexity exact_ops ''Optimize it'') = SIMPLE
   \<and> complexity_score (analyze_task_complexity exact_ops ''analyze multiple inputs'') = 2.5
   \<and> complexity_level (analyze_task_complexity exact_ops ''analyze multiple inputs'') = MODERATE
   \<and> complexity_score (analyze_task_complexity exact_ops ''optimize complex parallel jobs'') = 5.8
   \<and> complexity_level (analyze_task_complexity exact_ops ''optimize complex parallel jobs'') = COMPLEX
   \<and> complexity_score (analyze_task_complexity exact_ops ''orchestrate simultaneous complex work'') = 6.8
   \<and> complexity_level (analyze_task_complexity exact_ops ''orchestrate simultaneous complex work'')
       = VERY_COMPLEX"
proof -
  have s1: "complexity_score (analyze_task_complexity exact_ops ''Optimize it'') = 2.0"
    by code_simp
  have s2: "complexity_score (analyze_task_complexity exact_ops ''analyze multiple inputs'') = 2.5"
    by code_simp
  have s3: "complexity_score (analyze_task_complexity exact_ops ''optimize complex parallel jobs'') = 5.8"
    by code_simp
  have s4: "complexity_score (analyze_task_complexity exact_ops ''orchestrate simultaneous complex work'')
              = 6.8"
    by code_simp
  show ?thesis
    using complexity_tier_thresholds [of exact_ops "''Optimize it''"]
      complexity_tier_thresholds [of exact_ops "''analyze multiple inputs''"]
      complexity_tier_thresholds [of exact_ops "''optimize complex parallel jobs''"]
      complexity_tier_thresholds [of exact_ops "''orchestrate simultaneous complex work''"]
    by (simp add: s1 s2 s3 s4)
qed

lemma scan_words_no_keyword:
  "\<forall>w \<in> set ws. map_of complexity_keywords w = None \<Longrightarrow> scan_words fl ws acc = acc"
  by (induction fl ws acc rule: scan_words.induct) simp_all

lemma keyword_free_zero:
  assumes "length (py_split (py_lower d)) \<le> 20"
    and "\<forall>w \<in> set (py_split (py_lower d)). map_of complexity_keywords w = None"
  shows "complexity_score (analyze_task_complexity fl d) = 0"
  using assms
  by (simp add: analyze_task_complexity_def Let_def scan_words_no_keyword)

text \<open>
  C6, as the code has it. A description of 5 words none of which is a complexity keyword
  gets the score 0.0 (no keyword weight, no length bonus) and the tier SIMPLE; 0.0 is
  below the 2.0 threshold.
\<close>

theorem keyword_free_five_words:
  assumes "length (py_split (py_lower d)) = 5"
    and "\<forall>w \<in> set (py_split (py_lower d)). map_of complexity_keywords w = None"
  shows "complexity_score (analyze_task_complexity fl d) = 0.0
       \<and> complexity_level (analyze_task_complexity fl d) = SIMPLE
       \<and> complexity_score (analyze_task_complexity fl d) < 2.0"
  using assms
  by (simp add: analyze_task_complexity_def Let_def scan_words_no_keyword level_of_score_def)

theorem keyword_free_five_words_witness:
  "length (py_split (py_lower ''please open the front door'')) = 5
   \<and> list_all (\<lambda>w. map_of complexity_keywords w = None)
        (py_split (py_lower ''please open the front door''))
   \<and> complexity_score (analyze_task_complexity exact_ops ''please open the front door'') = 0.0
   \<and> complexity_level (analyze_task_complexity exact_ops ''please open the front door'') = SIMPLE"
proof -
  have len: "length (py_split (py_lower ''please open the front door'')) = 5"
    by code_simp
  have la: "list_all (\<lambda>w. map_of complexity_keywords w = None)
              (py_split (py_lower ''please open the front door''))"
    by code_simp
  then have nk: "\<forall>w \<in> set (py_split (py_lower ''please open the front door'')).
                   map_of complexity_keywords w = None"
    by (simp add: list_all_iff)
  show ?thesis
    using keyword_free_five_words [OF len nk, of exact_ops] len la by simp
qed

text \<open>
  The claim as stated gives the score of such a description as 0.3. The description
  \<open>please open the front door\<close> has 5 words, none a keyword, and its score is not 0.3.
\<close>

theorem keyword_free_score_counterexample:
  "length (py_split (py_lower ''please open the front door'')) = 5
   \<and> list_all (\<lambda>w. map_of complexity_keywords w = None)
        (py_split (py_lower ''please open the front door''))
   \<and> (\<forall>fl. complexity_score (analyze_task_complexity fl ''please open the front door'') = 0)
   \<and> (\<forall>fl. complexity_score (analyze_task_complexity fl ''please open the front door'') \<noteq> 0.3)"
proof -
  have len: "length (py_split (py_lower ''please open the front door'')) = 5"
    by code_simp
  have la: "list_all (\<lambda>w. map_of complexity_keywords w = None)
              (py_split (py_lower ''please open the front door''))"
    by code_simp
  then have nk: "\<forall>w \<in> set (py_split (py_lower ''please open the front door'')).
                   map_of complexity_keywords w = None"
    by (simp add: list_all_iff)
  have z: "complexity_score (analyze_task_complexity fl ''please open the front door'') = 0"
    for fl
    using keyword_free_zero [OF _ nk, of fl] len by simp
  show ?thesis
    using len la z by simp
qed

section \<open>Automation-tier ADAPTIVE\<close>

lemma executors_tagged:
  "strategy_used (execute_hybrid hash tid est) = HYBRID_exec
   \<and> strategy_used (execute_parallel hash tid est) = PARALLEL_exec
   \<and> strategy_used (execute_sequential hash tid est) = SEQUENTIAL_exec
   \<and> total_steps (execute_hybrid hash tid est) = steps_or 5 est
   \<and> total_steps (execute_parallel hash tid est) = steps_or 3 est
   \<and> total_steps (execute_sequential hash tid est) = steps_or 3 est"
  by (simp add: execute_hybrid_def execute_parallel_def execute_sequential_def Let_def
      split: sum.splits prod.splits)

lemma execute_adaptive_unfolded:
  "execute_adaptive hash tid est =
     (if success (execute_hybrid hash tid est)
      then (execute_hybrid hash tid est)\<lparr>strategy_used := ADAPTIVE_exec\<rparr>
      else if success (execute_parallel hash tid est)
      then (execute_parallel hash tid est)\<lparr>strategy_used := ADAPTIVE_exec\<rparr>
      else (execute_sequential hash tid est)\<lparr>strategy_used := ADAPTIVE_exec\<rparr>)"
  by (simp add: execute_adaptive_def execute_adaptive_with_def strategies_to_try_def
      run_executor_def)

text \<open>
  C8. \<open>_execute_adaptive\<close> awaits the HYBRID executor, then PARALLEL, then SEQUENTIAL,
  and stops at the first one that returns a successful result, which it returns. If none
  succeeds all three have been awaited and what is returned is the last failure: the
  result of the last executor that returned one (the fixed "All strategies failed" result
  if all three raised). The result returned has \<open>strategy_used = ADAPTIVE\<close> in every
  case, and it is successful exactly when one of the three succeeded. In the engine the
  three attempts are \<open>_execute_hybrid\<close>, \<open>_execute_parallel\<close> and
  \<open>_execute_sequential\<close> on the task, each run to its result, so \<open>_execute_adaptive\<close>
  returns the first successful one of their results, or the sequential one.
\<close>

theorem adaptive_cascade:
  assumes "execute_adaptive_with attempt tid est = (tried, res)"
  shows "strategy_used res = ADAPTIVE_exec
       \<and> (succeeds attempt HYBRID_exec \<longrightarrow>
            tried = [HYBRID_exec]
            \<and> (\<exists>r. attempt HYBRID_exec = Inr r \<and> res = r\<lparr>strategy_used := ADAPTIVE_exec\<rparr>))
       \<and> (\<not> succeeds attempt HYBRID_exec \<and> succeeds attempt PARALLEL_exec \<longrightarrow>
            tried = [HYBRID_exec, PARALLEL_exec]
            \<and> (\<exists>r. attempt PARALLEL_exec = Inr r \<and> res = r\<lparr>strategy_used := ADAPTIVE_exec\<rparr>))
       \<and> (\<not> succeeds attempt HYBRID_exec \<and> \<not> succeeds attempt PARALLEL_exec
            \<and> succeeds attempt SEQUENTIAL_exec \<longrightarrow>
            tried = [HYBRID_exec, PARALLEL_exec, SEQUENTIAL_exec]
            \<and> (\<exists>r. attempt SEQUENTIAL_exec = Inr r
                   \<and> res = r\<lparr>strategy_used := ADAPTIVE_exec\<rparr>))
       \<and> (\<not> succeeds attempt HYBRID_exec \<and> \<not> succeeds attempt PARALLEL_exec
            \<and> \<not> succeeds attempt SEQUENTIAL_exec \<longrightarrow>
            tried = [HYBRID_exec, PARALLEL_exec, SEQUENTIAL_exec]
            \<and> \<not> success res
            \<and> res =
                (case attempt SEQUENTIAL_exec of
                   Inr r \<Rightarrow> r\<lparr>strategy_used := ADAPTIVE_exec\<rparr>
                 | Inl e3 \<Rightarrow>
                     (case attempt PARALLEL_exec of
                        Inr r \<Rightarrow> r\<lparr>strategy_used := ADAPTIVE_exec\<rparr>
                      | Inl e2 \<Rightarrow>
                          (case attempt HYBRID_exec of
                             Inr r \<Rightarrow> r\<lparr>strategy_used := ADAPTIVE_exec\<rparr>
                           | Inl e1 \<Rightarrow>
                               \<lparr>res_task_id = tid, success = False,
                                strategy_used = ADAPTIVE_exec, steps_completed = 0,
                                total_steps = steps_or 1 est, confidence = 0.1,
                                error_message = Some ''All strategies failed''\<rparr>))))
       \<and> (success res \<longleftrightarrow>
            succeeds attempt HYBRID_exec \<or> succeeds attempt PARALLEL_exec
            \<or> succeeds attempt SEQUENTIAL_exec)
       \<and> run_executor hash tid est HYBRID_exec = Inr (execute_hybrid hash tid est)
       \<and> run_executor hash tid est PARALLEL_exec = Inr (execute_parallel hash tid est)
       \<and> run_executor hash tid est SEQUENTIAL_exec = Inr (execute_sequential hash tid est)
       \<and> strategy_used (execute_hybrid hash tid est) = HYBRID_exec
       \<and> strategy_used (execute_parallel hash tid est) = PARALLEL_exec
       \<and> strategy_used (execute_sequential hash tid est) = SEQUENTIAL_exec
       \<and> total_steps (execute_hybrid hash tid est) = steps_or 5 est
       \<and> total_steps (execute_parallel hash tid est) = steps_or 3 est
       \<and> total_steps (execute_sequential hash tid est) = steps_or 3 est
       \<and> execute_adaptive hash tid est =
            snd (execute_adaptive_with (run_executor hash tid est) tid est)
       \<and> execute_adaptive hash tid est =
            (if success (execute_hybrid hash tid est)
             then (execute_hybrid hash tid est)\<lparr>strategy_used := ADAPTIVE_exec\<rparr>
             else if success (execute_parallel hash tid est)
             then (execute_parallel hash tid est)\<lparr>strategy_used := ADAPTIVE_exec\<rparr>
             else (execute_sequential hash tid est)\<lparr>strategy_used := ADAPTIVE_exec\<rparr>)"
proof -
  have loop: "strategy_used res = ADAPTIVE_exec
       \<and> (succeeds attempt HYBRID_exec \<longrightarrow>
            tried = [HYBRID_exec]
            \<and> (\<exists>r. attempt HYBRID_exec = Inr r \<and> res = r\<lparr>strategy_used := ADAPTIVE_exec\<rparr>))
       \<and> (\<not> succeeds attempt HYBRID_exec \<and> succeeds attempt PARALLEL_exec \<longrightarrow>
            tried = [HYBRID_exec, PARALLEL_exec]
            \<and> (\<exists>r. attempt PARALLEL_exec = Inr r \<and> res = r\<lparr>strategy_used := ADAPTIVE_exec\<rparr>))
       \<and> (\<not> succeeds attempt HYBRID_exec \<and> \<not> succeeds attempt PARALLEL_exec
            \<and> succeeds attempt SEQUENTIAL_exec \<longrightarrow>
            tried = [HYBRID_exec, PARALLEL_exec, SEQUENTIAL_exec]
            \<and> (\<exists>r. attempt SEQUENTIAL_exec = Inr r
                   \<and> res = r\<lparr>strategy_used := ADAPTIVE_exec\<rparr>))
       \<and> (\<not> succeeds attempt HYBRID_exec \<and> \<not> succeeds attempt PARALLEL_exec
            \<and> \<not> succeeds attempt SEQUENTIAL_exec \<longrightarrow>
            tried = [HYBRID_exec, PARALLEL_exec, SEQUENTIAL_exec]
            \<and> \<not> success res
            \<and> res =
                (case attempt SEQUENTIAL_exec of
                   Inr r \<Rightarrow> r\<lparr>strategy_used := ADAPTIVE_exec\<rparr>
                 | Inl e3 \<Rightarrow>
                     (case attempt PARALLEL_exec of
                        Inr r \<Rightarrow> r\<lparr>strategy_used := ADAPTIVE_exec\<rparr>
                      | Inl e2 \<Rightarrow>
                          (case attempt HYBRID_exec of
                             Inr r \<Rightarrow> r\<lparr>strategy_used := ADAPTIVE_exec\<rparr>
                           | Inl e1 \<Rightarrow>
                               \<lparr>res_task_id = tid, success = False,
                                strategy_used = ADAPTIVE_exec, steps_completed = 0,
                                total_steps = steps_or 1 est, confidence = 0.1,
                                error_message = Some ''All strategies failed''\<rparr>))))
       \<and> (success res \<longleftrightarrow>
            succeeds attempt HYBRID_exec \<or> succeeds attempt PARALLEL_exec
            \<or> succeeds attempt SEQUENTIAL_exec)"
    using assms
    by (auto simp add: execute_adaptive_with_def strategies_to_try_def succeeds_def
        split: sum.splits if_splits)
  have run: "run_executor hash tid est HYBRID_exec = Inr (execute_hybrid hash tid est)
       \<and> run_executor hash tid est PARALLEL_exec = Inr (execute_parallel hash tid est)
       \<and> run_executor hash tid est SEQUENTIAL_exec = Inr (execute_sequential hash tid est)
       \<and> execute_adaptive hash tid est =
            snd (execute_adaptive_with (run_executor hash tid est) tid est)"
    by (simp add: run_executor_def execute_adaptive_def)
  show ?thesis
    using loop run executors_tagged [of hash tid est] execute_adaptive_unfolded [of hash tid est]
    by (elim conjE, intro conjI) assumption+
qed

lemma synthetic_run:
  "execute_adaptive_with only_sequential_succeeds ''t1'' None =
     ([HYBRID_exec, PARALLEL_exec, SEQUENTIAL_exec],
      (synthetic SEQUENTIAL_exec True)\<lparr>strategy_used := ADAPTIVE_exec\<rparr>)"
  by (simp add: execute_adaptive_with_def strategies_to_try_def only_sequential_succeeds_def
      synthetic_def)

theorem adaptive_cascade_witness:
  "fst (execute_adaptive_with only_sequential_succeeds ''t1'' None)
     = [HYBRID_exec, PARALLEL_exec, SEQUENTIAL_exec]
   \<and> strategy_used (snd (execute_adaptive_with only_sequential_succeeds ''t1'' None))
       = ADAPTIVE_exec
   \<and> success (snd (execute_adaptive_with only_sequential_succeeds ''t1'' None)) = True
   \<and> snd (execute_adaptive_with only_sequential_succeeds ''t1'' None)
       = (synthetic SEQUENTIAL_exec True)\<lparr>strategy_used := ADAPTIVE_exec\<rparr>
   \<and> strategy_used (execute_adaptive (\<lambda>s. 1) ''t1'' None) = ADAPTIVE_exec
   \<and> success (execute_adaptive (\<lambda>s. 1) ''t1'' None) = True
   \<and> steps_completed (execute_adaptive (\<lambda>s. 1) ''t1'' None) = 5
   \<and> total_steps (execute_adaptive (\<lambda>s. 1) ''t1'' None) = 5"
proof -
  have hy: "success (execute_hybrid (\<lambda>s. 1) ''t1'' None)
          \<and> steps_completed (execute_hybrid (\<lambda>s. 1) ''t1'' None) = 5
          \<and> total_steps (execute_hybrid (\<lambda>s. 1) ''t1'' None) = 5"
    by code_simp
  note c = adaptive_cascade [OF synthetic_run, of "\<lambda>s. 1"]
  have syn: "fst (execute_adaptive_with only_sequential_succeeds ''t1'' None)
               = [HYBRID_exec, PARALLEL_exec, SEQUENTIAL_exec]
           \<and> strategy_used (snd (execute_adaptive_with only_sequential_succeeds ''t1'' None))
               = ADAPTIVE_exec
           \<and> success (snd (execute_adaptive_with only_sequential_succeeds ''t1'' None)) = True
           \<and> snd (execute_adaptive_with only_sequential_succeeds ''t1'' None)
               = (synthetic SEQUENTIAL_exec True)\<lparr>strategy_used := ADAPTIVE_exec\<rparr>"
    by (simp add: synthetic_run synthetic_def)
  have eng: "execute_adaptive (\<lambda>s. 1) ''t1'' None =
            (if success (execute_hybrid (\<lambda>s. 1) ''t1'' None)
             then (execute_hybrid (\<lambda>s. 1) ''t1'' None)\<lparr>strategy_used := ADAPTIVE_exec\<rparr>
             else if success (execute_parallel (\<lambda>s. 1) ''t1'' None)
             then (execute_parallel (\<lambda>s. 1) ''t1'' None)\<lparr>strategy_used := ADAPTIVE_exec\<rparr>
             else (execute_sequential (\<lambda>s. 1) ''t1'' None)\<lparr>strategy_used := ADAPTIVE_exec\<rparr>)"
    using c by blast
  have "strategy_used (execute_adaptive (\<lambda>s. 1) ''t1'' None) = ADAPTIVE_exec
      \<and> success (execute_adaptive (\<lambda>s. 1) ''t1'' None) = True
      \<and> steps_completed (execute_adaptive (\<lambda>s. 1) ''t1'' None) = 5
      \<and> total_steps (execute_adaptive (\<lambda>s. 1) ''t1'' None) = 5"
    using hy by (simp add: eng)
  then show ?thesis
    using syn by blast
qed

section \<open>Agent Registry and Task Router\<close>

lemma dict_set_member: "a \<in> set (dict_set a reg)"
  by (induction reg) simp_all

lemma set_dict_set: "set (dict_set a reg) \<subseteq> insert a (set reg)"
  by (induction reg) auto

lemma ids_dict_set:
  "map agent_id (dict_set a reg) =
     (if agent_id a \<in> set (map agent_id reg) then map agent_id reg
      else map agent_id reg @ [agent_id a])"
  by (induction reg) auto

lemma is_suitable_iff:
  "is_suitable task a \<longleftrightarrow>
     availability a \<and> current_load a < max_load a
     \<and> (req_specializations task = []
        \<or> set (req_specializations task) \<inter> set (specializations a) \<noteq> {})"
  by (auto simp add: is_suitable_def list_ex_iff)

lemma suitable_subset:
  "find_suitable_agents fl reg task = Inr suitable \<Longrightarrow>
   set suitable = {a \<in> set reg. is_suitable task a}"
  by (auto simp add: find_suitable_agents_def Let_def split: if_splits)

text \<open>
  C7, as the code has it. \<open>_find_suitable_agents\<close> keeps exactly the registered agents
  that are available, whose load is below their maximum (\<open>current_load \<ge> max_load\<close> is
  filtered out, not only equality) and, when the task requires specializations, that
  have one of them. It returns them by descending key, the key being the float that the
  code computes for \<open>performance_score * (1 - current_load / max_load)\<close> (with whatever
  rounding the float operations have), agents of equal key in registry order. The only
  failure is the division by a \<open>max_load\<close> of 0 of a kept agent.
\<close>

theorem find_suitable_agents_ranked:
  "(case find_suitable_agents fl reg task of
      Inl e \<Rightarrow> e = ZeroDivisionError \<and> (\<exists>a \<in> set reg. is_suitable task a \<and> max_load a = 0)
    | Inr suitable \<Rightarrow>
        set suitable =
          {a \<in> set reg. availability a \<and> current_load a < max_load a
             \<and> (req_specializations task = []
                \<or> set (req_specializations task) \<inter> set (specializations a) \<noteq> {})}
        \<and> length suitable = length (filter (is_suitable task) reg)
        \<and> sorted_wrt (\<lambda>a b. rank_key fl a \<ge> rank_key fl b) suitable
        \<and> (\<forall>k. filter (\<lambda>a. rank_key fl a = k) suitable =
                 filter (\<lambda>a. rank_key fl a = k) (filter (is_suitable task) reg)))
   \<and> rank_key fl a =
       fl_mul fl (performance_score a)
         (fl_sub fl 1 (fl_div fl (real_of_int (current_load a)) (real_of_int (max_load a))))"
proof -
  have main: "(case find_suitable_agents fl reg task of
      Inl e \<Rightarrow> e = ZeroDivisionError \<and> (\<exists>a \<in> set reg. is_suitable task a \<and> max_load a = 0)
    | Inr suitable \<Rightarrow>
        set suitable =
          {a \<in> set reg. availability a \<and> current_load a < max_load a
             \<and> (req_specializations task = []
                \<or> set (req_specializations task) \<inter> set (specializations a) \<noteq> {})}
        \<and> length suitable = length (filter (is_suitable task) reg)
        \<and> sorted_wrt (\<lambda>a b. rank_key fl a \<ge> rank_key fl b) suitable
        \<and> (\<forall>k. filter (\<lambda>a. rank_key fl a = k) suitable =
                 filter (\<lambda>a. rank_key fl a = k) (filter (is_suitable task) reg)))"
  proof (cases "find_suitable_agents fl reg task")
    case (Inl e)
    then show ?thesis
      by (auto simp add: find_suitable_agents_def Let_def list_ex_iff split: if_splits)
  next
    case (Inr suitable)
    then have s: "suitable = sort_key (\<lambda>a. - rank_key fl a) (filter (is_suitable task) reg)"
      by (simp add: find_suitable_agents_def Let_def split: if_splits)
    have "sorted (map (\<lambda>a. - rank_key fl a) suitable)"
      unfolding s by (rule sorted_sort_key)
    then have srt: "sorted_wrt (\<lambda>a b. rank_key fl a \<ge> rank_key fl b) suitable"
      by (simp add: sorted_map)
    have stab: "filter (\<lambda>a. rank_key fl a = k) suitable =
                  filter (\<lambda>a. rank_key fl a = k) (filter (is_suitable task) reg)" for k
    proof -
      have "filter (\<lambda>a. - rank_key fl a = - k) suitable =
              filter (\<lambda>a. - rank_key fl a = - k) (filter (is_suitable task) reg)"
        unfolding s by (rule sort_key_stable)
      then show ?thesis by simp
    qed
    have len: "length suitable = length (filter (is_suitable task) reg)"
      unfolding s by simp
    have "set suitable = {a \<in> set reg. is_suitable task a}"
      using Inr by (rule suitable_subset)
    then show ?thesis
      using Inr srt stab len by (simp add: is_suitable_iff)
  qed
  show ?thesis
    using main by (simp add: rank_key_def)
qed

text \<open>
  In the witness every operation has an exact float result (a division by 10 of 0 or 5
  gives 0.0 or 0.5, and a product with 1.0 or 0.5 is exact), so the keys are the code's.
\<close>

theorem find_suitable_agents_ranked_witness:
  "find_suitable_agents exact_ops
     [worker ''a1'' 0.5 0 10, worker ''a2'' 0.75 5 10, worker ''a3'' 0.5 0 10,
      worker ''a4'' 0.75 10 10, worker ''a5'' 0.25 0 10]
     (plain_task ''t1'')
   = Inr [worker ''a1'' 0.5 0 10, worker ''a3'' 0.5 0 10, worker ''a2'' 0.75 5 10,
          worker ''a5'' 0.25 0 10]
   \<and> sorted_wrt (\<lambda>a b. rank_key exact_ops a \<ge> rank_key exact_ops b)
        [worker ''a1'' 0.5 0 10, worker ''a3'' 0.5 0 10, worker ''a2'' 0.75 5 10,
         worker ''a5'' 0.25 0 10]"
proof -
  have e: "find_suitable_agents exact_ops
     [worker ''a1'' 0.5 0 10, worker ''a2'' 0.75 5 10, worker ''a3'' 0.5 0 10,
      worker ''a4'' 0.75 10 10, worker ''a5'' 0.25 0 10]
     (plain_task ''t1'')
   = Inr [worker ''a1'' 0.5 0 10, worker ''a3'' 0.5 0 10, worker ''a2'' 0.75 5 10,
          worker ''a5'' 0.25 0 10]"
    by (simp add: find_suitable_agents_def is_suitable_def worker_def plain_task_def
        rank_key_def exact_ops_def)
  show ?thesis
    using find_suitable_agents_ranked
      [where fl = exact_ops and task = "plain_task ''t1''" and a = "worker ''a1'' 0.5 0 10"
         and reg = "[worker ''a1'' 0.5 0 10, worker ''a2'' 0.75 5 10, worker ''a3'' 0.5 0 10,
            worker ''a4'' 0.75 10 10, worker ''a5'' 0.25 0 10]"]
    unfolding e by simp
qed

text \<open>
  The claim as stated filters on \<open>current_load == max_load\<close>. An agent registered with
  \<open>max_load = -1\<close> is available and its load 0 is not its maximum, and the task requires
  no specialization; it is not returned, whatever the float arithmetic.
\<close>

theorem suitable_filter_counterexample:
  "agents (snd (register_agent ''a1'' [''executor'']
      \<lparr>cap_performance_score = None, cap_max_load = Some (- 1), cap_skills = None\<rparr>
      init_orchestrator)) = [worker ''a1'' 0.5 0 (- 1)]
   \<and> availability (worker ''a1'' 0.5 0 (- 1))
   \<and> current_load (worker ''a1'' 0.5 0 (- 1)) \<noteq> max_load (worker ''a1'' 0.5 0 (- 1))
   \<and> req_specializations (plain_task ''t1'') = []
   \<and> (\<forall>fl. find_suitable_agents fl [worker ''a1'' 0.5 0 (- 1)] (plain_task ''t1'') = Inr [])"
  by (simp add: register_agent_def init_orchestrator_def new_agent_def worker_def
      plain_task_def find_suitable_agents_def is_suitable_def)

text \<open>
  The standalone \<open>TaskRouter.route\<close> is a different computation: it does not look at
  the load and ranks by \<open>performance_score\<close> alone.
\<close>

lemma route_ignores_load:
  "route (plain_task ''t1'') [worker ''a1'' 0.5 0 10, worker ''a2'' 0.9 10 10]
     = [worker ''a2'' 0.9 10 10, worker ''a1'' 0.5 0 10]"
  by (simp add: route_def router_is_suitable_def worker_def plain_task_def)

section \<open>What routing does to the bookkeeping of tasks\<close>

lemma books_refl: "books r s s"
  by (auto simp add: books_def)

lemma task_id_set_task:
  "(\<And>t. task_id (f t) = task_id t) \<Longrightarrow>
   task_id (tasks (set_task r f s) ! r) = task_id (tasks s ! r)"
  by (cases "r < length (tasks s)") (simp_all add: set_task_def list_update_beyond)

lemma books_set_task:
  "books r s s' \<Longrightarrow> (\<And>t. task_id (f t) = task_id t) \<Longrightarrow> books r s (set_task r f s')"
  using task_id_set_task [of f r s']
  by (simp add: books_def) (simp add: set_task_def)

lemma books_fail_task: "books r s s' \<Longrightarrow> books r s (fail_task r s')"
  unfolding fail_task_def by (rule books_set_task) simp_all

lemma books_agents: "books r s s' \<Longrightarrow> books r s (s'\<lparr>agents := reg\<rparr>)"
  by (simp add: books_def)

lemma books_complete_task: "books r s s' \<Longrightarrow> books r s (complete_task r s')"
  by (auto simp add: books_def complete_task_def)

lemmas books_intros =
  books_refl books_set_task books_fail_task books_agents books_complete_task

lemma books_dispatch_one: "books r s (snd (dispatch_one w aid r s))"
  by (auto simp add: dispatch_one_def Let_def split_beta split: sum.splits
      intro!: books_intros)

lemma books_sequential: "books r s (snd (sequential_routing w r s))"
  by (auto simp add: sequential_routing_def books_dispatch_one split: sum.splits list.splits
      intro!: books_intros)

lemma books_adaptive: "books r s (snd (adaptive_routing w r s))"
  by (auto simp add: adaptive_routing_def books_dispatch_one split: sum.splits list.splits
      intro!: books_intros)

lemma books_hierarchical: "books r s (snd (hierarchical_routing w r s))"
  by (auto simp add: hierarchical_routing_def books_dispatch_one books_adaptive
      split: option.splits)

lemma books_parallel: "books r s (snd (parallel_routing w r s))"
  by (auto simp add: parallel_routing_def Let_def split_beta split: sum.splits
      intro!: books_intros)

lemma books_consensus: "books r s (snd (consensus_routing w r s))"
  by (auto simp add: consensus_routing_def books_parallel Let_def split_beta split: sum.splits
      intro!: books_intros)

lemma books_competitive: "books r s (snd (competitive_routing w r s))"
  by (auto simp add: competitive_routing_def Let_def split_beta split: sum.splits list.splits
      intro!: books_intros)

lemma books_collaborative: "books r s (snd (collaborative_routing w r s))"
  by (auto simp add: collaborative_routing_def Let_def split_beta split: sum.splits
      intro!: books_intros)

lemma books_route_task: "books r s (route_task w r s)"
proof -
  have fin: "\<And>p. books r s (snd p) \<Longrightarrow>
               books r s (case fst p of None \<Rightarrow> snd p | Some e \<Rightarrow> fail_task r (snd p))"
    by (simp add: books_fail_task split: option.splits)
  show ?thesis
    by (cases "strategy s")
       (simp_all add: route_task_def split_beta fin books_sequential books_parallel
          books_consensus books_hierarchical books_competitive books_collaborative
          books_adaptive)
qed

section \<open>Routing that finds no suitable agent\<close>

lemma no_suitable_sequential:
  "find_suitable_agents (arith w) (agents st) (tasks st ! ref) = Inr [] \<Longrightarrow>
   sequential_routing w ref st = (None, fail_task ref st)"
  by (simp add: sequential_routing_def)

lemma no_suitable_parallel:
  "find_suitable_agents (arith w) (agents st) (tasks st ! ref) = Inr [] \<Longrightarrow>
   parallel_routing w ref st = (None, fail_task ref st)"
  by (simp add: parallel_routing_def)

lemma no_suitable_consensus:
  "find_suitable_agents (arith w) (agents st) (tasks st ! ref) = Inr [] \<Longrightarrow>
   consensus_routing w ref st = (None, fail_task ref st)"
  by (simp add: consensus_routing_def no_suitable_parallel)

lemma no_suitable_competitive:
  "find_suitable_agents (arith w) (agents st) (tasks st ! ref) = Inr [] \<Longrightarrow>
   competitive_routing w ref st = (None, fail_task ref st)"
  by (simp add: competitive_routing_def)

lemma no_suitable_collaborative:
  "find_suitable_agents (arith w) (agents st) (tasks st ! ref) = Inr [] \<Longrightarrow>
   collaborative_routing w ref st = (None, fail_task ref st)"
  by (simp add: collaborative_routing_def)

lemma no_suitable_adaptive:
  "find_suitable_agents (arith w) (agents st) (tasks st ! ref) = Inr [] \<Longrightarrow>
   adaptive_routing w ref st = (None, fail_task ref st)"
  by (simp add: adaptive_routing_def)

lemma no_suitable_hierarchical:
  "find_suitable_agents (arith w) (agents st) (tasks st ! ref) = Inr [] \<Longrightarrow>
   find_coordinator (agents st) = None \<Longrightarrow>
   hierarchical_routing w ref st = (None, fail_task ref st)"
  by (simp add: hierarchical_routing_def no_suitable_adaptive)

lemma no_suitable_route_task:
  assumes "find_suitable_agents (arith w) (agents st) (tasks st ! ref) = Inr []"
    and "strategy st = HIERARCHICAL \<Longrightarrow> find_coordinator (agents st) = None"
  shows "route_task w ref st = fail_task ref st"
  using assms
  by (cases "strategy st")
     (simp_all add: route_task_def no_suitable_sequential no_suitable_parallel
        no_suitable_consensus no_suitable_competitive no_suitable_collaborative
        no_suitable_adaptive no_suitable_hierarchical)

lemma route_all_keeps:
  assumes "list_all (\<lambda>p. snd p \<noteq> ref \<and> task_id (tasks s ! snd p) \<noteq> task_id (tasks s ! ref)) later"
  shows "tasks (route_all later s) ! ref = tasks s ! ref
       \<and> (ref \<notin> set (completed_tasks s) \<longrightarrow> ref \<notin> set (completed_tasks (route_all later s)))
       \<and> ((task_id (tasks s ! ref), v) \<in> set (active_tasks s) \<longrightarrow>
            (task_id (tasks s ! ref), v) \<in> set (active_tasks (route_all later s)))"
  using assms
proof (induction later arbitrary: s)
  case Nil
  show ?case by simp
next
  case (Cons p later)
  obtain w' r' where p: "p = (w', r')" by (cases p)
  define s1 where "s1 = route_task w' r' s"
  have ne: "r' \<noteq> ref" and idne: "task_id (tasks s ! r') \<noteq> task_id (tasks s ! ref)"
    using Cons.prems p by simp_all
  have b: "books r' s s1"
    unfolding s1_def by (rule books_route_task)
  have same: "tasks s1 ! ref = tasks s ! ref"
    using b ne by (simp add: books_def)
  have ids: "task_id (tasks s1 ! x) = task_id (tasks s ! x)" for x
    using b by (cases "x = r'") (simp_all add: books_def)
  have rest: "list_all (\<lambda>p. snd p \<noteq> ref \<and> task_id (tasks s1 ! snd p) \<noteq> task_id (tasks s1 ! ref))
                later"
    using Cons.prems by (simp add: ids)
  have compl: "ref \<notin> set (completed_tasks s) \<Longrightarrow> ref \<notin> set (completed_tasks s1)"
    using b ne by (auto simp add: books_def)
  have act: "(task_id (tasks s ! ref), v) \<in> set (active_tasks s) \<Longrightarrow>
             (task_id (tasks s ! ref), v) \<in> set (active_tasks s1)"
    using b idne by (simp add: books_def)
  show ?case
    using Cons.IH [OF rest] same compl act by (simp add: p s1_def [symmetric])
qed

text \<open>
  C10. When the routing of a task looks for suitable agents and finds none (under
  HIERARCHICAL this is the fallback taken when no coordinator is registered), the task
  object gets the status \<open>"failed"\<close> and nothing else changes: \<open>active_tasks\<close> and
  \<open>completed_tasks\<close> are what they were, so the task stays under its key in
  \<open>active_tasks\<close>, the counts of \<open>get_status\<close> do not move, and \<open>get_task_status\<close>
  reports the task as a failed active task. The routing of other tasks afterwards (tasks
  with other ids) never moves it: it is still failed, still in \<open>active_tasks\<close> and not
  in \<open>completed_tasks\<close>.
\<close>

theorem unroutable_task_stays_active:
  assumes "ref < length (tasks st)"
    and "find_suitable_agents (arith w) (agents st) (tasks st ! ref) = Inr []"
    and "strategy st = HIERARCHICAL \<Longrightarrow> find_coordinator (agents st) = None"
  shows "status (tasks (route_task w ref st) ! ref) = ''failed''
       \<and> active_tasks (route_task w ref st) = active_tasks st
       \<and> completed_tasks (route_task w ref st) = completed_tasks st
       \<and> rep_active_tasks (get_status (route_task w ref st)) = rep_active_tasks (get_status st)
       \<and> rep_completed_tasks (get_status (route_task w ref st))
           = rep_completed_tasks (get_status st)
       \<and> task_id (tasks (route_task w ref st) ! ref) = task_id (tasks st ! ref)
       \<and> assigned_agents (tasks (route_task w ref st) ! ref) = assigned_agents (tasks st ! ref)
       \<and> result (tasks (route_task w ref st) ! ref) = result (tasks st ! ref)
       \<and> (map_of (active_tasks st) (task_id (tasks st ! ref)) = Some ref \<longrightarrow>
            get_task_status (task_id (tasks st ! ref)) (route_task w ref st)
              = Some (''failed'', None))
       \<and> (list_all (\<lambda>p. snd p \<noteq> ref
                          \<and> task_id (tasks st ! snd p) \<noteq> task_id (tasks st ! ref)) later \<longrightarrow>
            status (tasks (route_all later (route_task w ref st)) ! ref) = ''failed''
            \<and> (ref \<notin> set (completed_tasks st) \<longrightarrow>
                 ref \<notin> set (completed_tasks (route_all later (route_task w ref st))))
            \<and> ((task_id (tasks st ! ref), ref) \<in> set (active_tasks st) \<longrightarrow>
                 (task_id (tasks st ! ref), ref)
                   \<in> set (active_tasks (route_all later (route_task w ref st)))))"
proof -
  have eq: "route_task w ref st = fail_task ref st"
    by (rule no_suitable_route_task [OF assms(2) assms(3)])
  have now: "status (tasks (fail_task ref st) ! ref) = ''failed''
       \<and> active_tasks (fail_task ref st) = active_tasks st
       \<and> completed_tasks (fail_task ref st) = completed_tasks st
       \<and> rep_active_tasks (get_status (fail_task ref st)) = rep_active_tasks (get_status st)
       \<and> rep_completed_tasks (get_status (fail_task ref st))
           = rep_completed_tasks (get_status st)
       \<and> task_id (tasks (fail_task ref st) ! ref) = task_id (tasks st ! ref)
       \<and> assigned_agents (tasks (fail_task ref st) ! ref) = assigned_agents (tasks st ! ref)
       \<and> result (tasks (fail_task ref st) ! ref) = result (tasks st ! ref)
       \<and> (map_of (active_tasks st) (task_id (tasks st ! ref)) = Some ref \<longrightarrow>
            get_task_status (task_id (tasks st ! ref)) (fail_task ref st)
              = Some (''failed'', None))"
    using assms(1) by (simp add: fail_task_def set_task_def get_status_def get_task_status_def)
  have ids: "task_id (tasks (fail_task ref st) ! x) = task_id (tasks st ! x)" for x
    using assms(1) by (cases "x = ref") (simp_all add: fail_task_def set_task_def)
  have later: "status (tasks (route_all later (fail_task ref st)) ! ref) = ''failed''
            \<and> (ref \<notin> set (completed_tasks st) \<longrightarrow>
                 ref \<notin> set (completed_tasks (route_all later (fail_task ref st))))
            \<and> ((task_id (tasks st ! ref), ref) \<in> set (active_tasks st) \<longrightarrow>
                 (task_id (tasks st ! ref), ref)
                   \<in> set (active_tasks (route_all later (fail_task ref st))))"
    if l: "list_all (\<lambda>p. snd p \<noteq> ref
                          \<and> task_id (tasks st ! snd p) \<noteq> task_id (tasks st ! ref)) later"
  proof -
    have l': "list_all (\<lambda>p. snd p \<noteq> ref
                \<and> task_id (tasks (fail_task ref st) ! snd p)
                    \<noteq> task_id (tasks (fail_task ref st) ! ref)) later"
      using l by (simp add: ids)
    show ?thesis
      using route_all_keeps [OF l', of ref] now by (simp add: ids)
  qed
  show ?thesis
    unfolding eq using now later by blast
qed

theorem unroutable_task_stays_active_witness:
  "find_suitable_agents (arith calm_world) (agents mixed_orchestrator) (tasks mixed_orchestrator ! 0) = Inr []
   \<and> status (tasks (route_task calm_world 0 mixed_orchestrator) ! 0) = ''failed''
   \<and> active_tasks (route_task calm_world 0 mixed_orchestrator) = [(''t1'', 0), (''t2'', 1)]
   \<and> completed_tasks (route_task calm_world 0 mixed_orchestrator) = []
   \<and> get_task_status ''t1'' (route_task calm_world 0 mixed_orchestrator)
       = Some (''failed'', None)
   \<and> status (tasks (route_all [(calm_world, 1)] (route_task calm_world 0 mixed_orchestrator)) ! 0)
       = ''failed''
   \<and> 0 \<notin> set (completed_tasks
                (route_all [(calm_world, 1)] (route_task calm_world 0 mixed_orchestrator)))
   \<and> (''t1'', 0) \<in> set (active_tasks
                (route_all [(calm_world, 1)] (route_task calm_world 0 mixed_orchestrator)))"
proof -
  have l: "0 < length (tasks mixed_orchestrator)"
    by (simp add: mixed_orchestrator_def submit_task_def init_orchestrator_def Let_def)
  have f: "find_suitable_agents (arith calm_world) (agents mixed_orchestrator) (tasks mixed_orchestrator ! 0)
             = Inr []"
    by (simp add: mixed_orchestrator_def submit_task_def init_orchestrator_def Let_def
        find_suitable_agents_def is_suitable_def worker_def)
  have h: "strategy mixed_orchestrator = HIERARCHICAL \<Longrightarrow>
             find_coordinator (agents mixed_orchestrator) = None"
    by (simp add: mixed_orchestrator_def submit_task_def init_orchestrator_def Let_def)
  have b: "active_tasks mixed_orchestrator = [(''t1'', 0), (''t2'', 1)]
         \<and> completed_tasks mixed_orchestrator = []
         \<and> task_id (tasks mixed_orchestrator ! 0) = ''t1''
         \<and> task_id (tasks mixed_orchestrator ! 1) = ''t2''"
    by (simp add: mixed_orchestrator_def submit_task_def init_orchestrator_def Let_def)
  show ?thesis
    using unroutable_task_stays_active [OF l f h, of "[(calm_world, 1)]"] f b
    by simp
qed

section \<open>The load invariant\<close>

lemma count_list_distinct_le: "distinct xs \<Longrightarrow> count_list xs a \<le> 1"
  by (induction xs) auto

lemma count_list_take_le: "count_list (take j xs) a \<le> count_list xs a"
proof -
  have "count_list (take j xs) a + count_list (drop j xs) a = count_list xs a"
    by (metis append_take_drop_id count_list_append)
  then show ?thesis by simp
qed

lemma net_load_prefix_bounds:
  assumes "distinct ids"
  shows "0 \<le> net_load aid (take k (schedule oc ids))
       \<and> net_load aid (take k (schedule oc ids)) \<le> 1
       \<and> (aid \<notin> set ids \<longrightarrow> net_load aid (take k (schedule oc ids)) = 0)"
proof -
  have split: "take k (schedule oc ids) =
                 map Begin (take k ids) @ map (\<lambda>a. End a (oc a)) (take (k - length ids) ids)"
    by (simp add: schedule_def take_map)
  have n: "net_load aid (take k (schedule oc ids)) =
             int (count_list (take k ids) aid) - int (count_list (take (k - length ids) ids) aid)"
    by (simp add: split net_load_append net_load_begins net_load_ends)
  have one: "count_list (take k ids) aid \<le> 1"
    using count_list_take_le [of k ids aid] count_list_distinct_le [OF assms, of aid] by simp
  have none: "aid \<notin> set ids \<Longrightarrow> count_list (take j ids) aid = 0" for j
    by (meson count_notin in_set_takeD)
  show ?thesis
  proof (cases "k \<le> length ids")
    case True
    then show ?thesis
      using one n none [of k] by auto
  next
    case False
    then have full: "take k ids = ids" by simp
    have "count_list (take (k - length ids) ids) aid \<le> count_list ids aid"
      by (rule count_list_take_le)
    then show ?thesis
      using one n full none [of k] none [of "k - length ids"] by auto
  qed
qed

lemma max_load_run_events_nth:
  "i < length reg \<Longrightarrow> max_load (run_events evs reg ! i) = max_load (reg ! i)"
  using maxload_run_events [of evs reg] by (metis length_run_events nth_map)

lemma loads_in_prefix:
  assumes "idle_registry reg" and "distinct ids"
  shows "load_within_max (run_events (take k (schedule oc ids)) reg)
       \<and> list_all (\<lambda>a. 0 \<le> current_load a) (run_events (take k (schedule oc ids)) reg)"
proof -
  have base: "\<And>i. i < length reg \<Longrightarrow> current_load (reg ! i) = 0 \<and> 1 \<le> max_load (reg ! i)"
    using assms(1) by (simp add: idle_registry_def list_all_length)
  have "\<And>i. i < length reg \<Longrightarrow>
          0 \<le> current_load (run_events (take k (schedule oc ids)) reg ! i)
          \<and> current_load (run_events (take k (schedule oc ids)) reg ! i)
              \<le> max_load (run_events (take k (schedule oc ids)) reg ! i)"
  proof -
    fix i assume i: "i < length reg"
    have b: "0 \<le> net_load (agent_id (reg ! i)) (take k (schedule oc ids))
           \<and> net_load (agent_id (reg ! i)) (take k (schedule oc ids)) \<le> 1"
      using net_load_prefix_bounds [OF assms(2), of "agent_id (reg ! i)" k oc] by simp
    show "0 \<le> current_load (run_events (take k (schedule oc ids)) reg ! i)
          \<and> current_load (run_events (take k (schedule oc ids)) reg ! i)
              \<le> max_load (run_events (take k (schedule oc ids)) reg ! i)"
      using base [OF i] b i by (simp add: load_run_events max_load_run_events_nth)
  qed
  then show ?thesis
    by (simp add: load_within_max_def list_all_length)
qed

lemma idle_run_schedule:
  "idle_registry reg \<Longrightarrow> idle_registry (run_events (schedule oc ids) reg)"
  by (simp add: idle_registry_def loads_schedule)

lemma idle_run_route_events:
  "idle_registry reg \<Longrightarrow> idle_registry (run_events (route_events w s reg' task) reg)"
proof -
  assume a: "idle_registry reg"
  obtain oc ids where "route_events w s reg' task = schedule oc ids"
    using route_events_schedule [of w s reg' task] by blast
  then show ?thesis
    using a by (simp add: idle_run_schedule)
qed

lemma distinct_ids_sublist:
  assumes "distinct (map agent_id reg)"
  shows "distinct (map agent_id (take n (sort_key f (filter P reg))))"
proof -
  have "distinct (map agent_id (filter P reg))"
    using assms by (rule distinct_map_filter)
  then have "distinct (filter P reg) \<and> inj_on agent_id (set (filter P reg))"
    by (simp add: distinct_map)
  then have "distinct (map agent_id (sort_key f (filter P reg)))"
    by (simp add: distinct_map)
  then show ?thesis
    by (simp add: take_map [symmetric])
qed

lemma distinct_top_ids:
  "distinct (map agent_id reg) \<Longrightarrow> find_suitable_agents fl reg task = Inr suitable \<Longrightarrow>
   distinct (top_ids n suitable)"
  by (auto simp add: find_suitable_agents_def Let_def top_ids_def distinct_ids_sublist
      split: if_splits)

lemma distinct_adaptive_ids: "distinct (adaptive_ids fl reg task)"
  by (simp add: adaptive_ids_def split: sum.splits list.splits)

lemma distinct_dispatched:
  assumes "distinct (map agent_id reg)"
  shows "distinct (dispatched fl s reg task)"
proof (cases "find_suitable_agents fl reg task")
  case (Inl e)
  then show ?thesis
    by (cases s) (simp_all add: dispatched_def distinct_adaptive_ids split: option.splits)
next
  case (Inr suitable)
  then show ?thesis
    using distinct_top_ids [OF assms Inr]
    by (cases s) (simp_all add: dispatched_def distinct_adaptive_ids split: option.splits)
qed

lemma idle_dict_set:
  assumes "idle_registry reg" and "current_load a = 0" and "1 \<le> max_load a"
  shows "idle_registry (dict_set a reg)"
  using assms
proof (induction reg)
  case Nil
  then show ?case by (simp add: idle_registry_def)
next
  case (Cons b reg)
  have tail: "idle_registry reg"
    using Cons.prems(1) by (simp add: idle_registry_def)
  have ih: "idle_registry (dict_set a reg)"
    using Cons.IH [OF tail Cons.prems(2) Cons.prems(3)] .
  show ?case
  proof (cases "agent_id b = agent_id a")
    case True
    then show ?thesis
      using Cons.prems by (simp add: idle_registry_def)
  next
    case False
    have "agent_id b \<notin> set (map agent_id (dict_set a reg))"
      using Cons.prems(1) False by (simp add: ids_dict_set idle_registry_def)
    then show ?thesis
      using ih Cons.prems(1) False by (simp add: idle_registry_def)
  qed
qed

lemma idle_filter: "idle_registry reg \<Longrightarrow> idle_registry (filter P reg)"
  by (induction reg) (auto simp add: idle_registry_def)

lemma agents_process_next:
  "agents (process_next w st) = agents st
   \<or> (\<exists>ref q. agents (process_next w st) = agents (route_task w ref (st\<lparr>task_queue := q\<rparr>)))"
  by (cases "task_queue st") (auto simp add: process_next_def)

lemma at_rest_idle: "at_rest st \<Longrightarrow> idle_registry (agents st)"
proof (induction rule: at_rest.induct)
  case rest_init
  show ?case by (simp add: init_orchestrator_def idle_registry_def)
next
  case (rest_register st aid specs caps)
  have "current_load (new_agent aid specs caps) = 0"
    by (simp add: new_agent_def)
  then show ?case
    using rest_register by (simp add: register_agent_def idle_dict_set)
next
  case (rest_unregister st aid)
  then show ?case by (simp add: unregister_agent_def idle_filter)
next
  case (rest_submit st uuid ty specs sk prio)
  then show ?case by (simp add: submit_task_def Let_def)
next
  case (rest_set_strategy st s)
  then show ?case by (simp add: set_strategy_def)
next
  case (rest_route st w ref)
  then show ?case
    by (simp add: agents_route_task idle_run_route_events)
next
  case (rest_process st w)
  show ?case
  proof (cases "task_queue st")
    case Nil
    then show ?thesis using rest_process by (simp add: process_next_def)
  next
    case (Cons ref q)
    then show ?thesis
      using rest_process
      by (simp add: process_next_def agents_route_task idle_run_route_events)
  qed
qed

lemma idle_within_max: "idle_registry reg \<Longrightarrow> load_within_max reg"
proof -
  assume a: "idle_registry reg"
  have "load_within_max (run_events (take 0 (schedule (\<lambda>a. Cancelled) [])) reg)"
    using loads_in_prefix [OF a, of "[]" 0 "\<lambda>a. Cancelled"] by simp
  then show ?thesis by simp
qed

text \<open>
  C3, as the code has it. In every state that the orchestrator reaches by registering
  agents with \<open>max_load \<ge> 1\<close>, unregistering agents, accepting tasks, changing the strategy
  and routing tasks one at a time, every registered agent has
  \<open>0 \<le> current_load \<le> max_load\<close>; and so it is while the calls of a routing are in
  flight (after any number of its begin and end events), under each of the seven
  strategies.
\<close>

theorem load_never_exceeds_max:
  assumes "at_rest st"
  shows "load_within_max (agents st)
       \<and> list_all (\<lambda>a. 0 \<le> current_load a) (agents st)
       \<and> load_within_max (in_flight w ref k st)
       \<and> list_all (\<lambda>a. 0 \<le> current_load a) (in_flight w ref k st)
       \<and> load_within_max (agents (route_task w ref st))"
proof -
  have idle: "idle_registry (agents st)"
    using assms by (rule at_rest_idle)
  obtain oc ids where ev: "route_events w (strategy st) (agents st) (tasks st ! ref)
                             = schedule oc ids"
    and ids: "ids = [] \<or> ids = dispatched (arith w) (strategy st) (agents st) (tasks st ! ref)"
    using route_events_schedule [of w "strategy st" "agents st" "tasks st ! ref"] by blast
  have d: "distinct ids"
    using idle ids by (auto simp add: distinct_dispatched idle_registry_def)
  have fl: "load_within_max (in_flight w ref k st)
          \<and> list_all (\<lambda>a. 0 \<le> current_load a) (in_flight w ref k st)"
    unfolding in_flight_def ev by (rule loads_in_prefix [OF idle d])
  have after: "load_within_max (agents (route_task w ref st))"
    using at_rest_idle [OF rest_route [OF assms, of w ref]] by (rule idle_within_max)
  have now: "list_all (\<lambda>a. 0 \<le> current_load a) (agents st)"
    using idle by (simp add: idle_registry_def list_all_length)
  show ?thesis
    using idle_within_max [OF idle] now fl after by simp
qed

lemma two_agents_at_rest: "at_rest two_agents_orchestrator"
  unfolding two_agents_orchestrator_def
  by (intro rest_submit rest_register rest_set_strategy rest_init) (simp_all add: new_agent_def)

theorem load_never_exceeds_max_witness:
  "at_rest two_agents_orchestrator
   \<and> map agent_id (in_flight calm_world 0 2 two_agents_orchestrator) = [''a1'', ''a2'']
   \<and> map current_load (in_flight calm_world 0 2 two_agents_orchestrator) = [1, 1]
   \<and> load_within_max (in_flight calm_world 0 2 two_agents_orchestrator)
   \<and> load_within_max (agents (route_task calm_world 0 two_agents_orchestrator))"
proof -
  have ids: "map agent_id (in_flight calm_world 0 2 two_agents_orchestrator) = [''a1'', ''a2'']"
    by (simp add: in_flight_def two_agents_orchestrator_def submit_task_def register_agent_def
        set_strategy_def init_orchestrator_def new_agent_def Let_def)
  have loads: "map current_load (in_flight calm_world 0 2 two_agents_orchestrator) = [1, 1]"
    by (simp add: in_flight_def two_agents_orchestrator_def submit_task_def register_agent_def
        set_strategy_def init_orchestrator_def new_agent_def Let_def route_events_def
        dispatched_def find_suitable_agents_def is_suitable_def rank_key_def top_ids_def
        schedule_def exec_begin_def upd_agent_def calm_world_def exact_ops_def)
  show ?thesis
    using load_never_exceeds_max [OF two_agents_at_rest, of calm_world 0 2]
      two_agents_at_rest ids loads
    by simp
qed

text \<open>
  The claim as stated fails. A registration with \<open>max_load = -1\<close> gives an agent whose
  load 0 exceeds its maximum. An agent registered as \<open>'general'\<close> with \<open>max_load = 0\<close>
  satisfies the invariant at rest, and HIERARCHICAL routing, which does not look at the
  load, dispatches to it: after the first event of the routing its load is 1.
\<close>

theorem load_invariant_counterexample:
  "\<not> load_within_max
       (agents (snd (register_agent ''a2'' [''executor'']
          \<lparr>cap_performance_score = None, cap_max_load = Some (- 1), cap_skills = None\<rparr>
          init_orchestrator)))
   \<and> load_within_max (agents coordinator_orchestrator)
   \<and> map current_load (in_flight calm_world 0 1 coordinator_orchestrator) = [1]
   \<and> map max_load (in_flight calm_world 0 1 coordinator_orchestrator) = [0]
   \<and> \<not> load_within_max (in_flight calm_world 0 1 coordinator_orchestrator)"
  by (simp add: load_within_max_def register_agent_def init_orchestrator_def new_agent_def
      coordinator_orchestrator_def zero_capacity_def submit_task_def set_strategy_def Let_def
      in_flight_def route_events_def dispatched_def find_coordinator_def schedule_def
      exec_begin_def upd_agent_def calm_world_def)

section \<open>Registration\<close>

lemma quiet_dict_set:
  assumes "quiet_registry reg" and "current_load a = 0"
  shows "quiet_registry (dict_set a reg)"
  using assms
proof (induction reg)
  case Nil
  then show ?case by (simp add: quiet_registry_def)
next
  case (Cons b reg)
  have tail: "quiet_registry reg"
    using Cons.prems(1) by (simp add: quiet_registry_def)
  have ih: "quiet_registry (dict_set a reg)"
    using Cons.IH [OF tail Cons.prems(2)] .
  show ?case
  proof (cases "agent_id b = agent_id a")
    case True
    then show ?thesis
      using Cons.prems by (simp add: quiet_registry_def)
  next
    case False
    have "agent_id b \<notin> set (map agent_id (dict_set a reg))"
      using Cons.prems(1) False by (simp add: ids_dict_set quiet_registry_def)
    then show ?thesis
      using ih Cons.prems(1) False by (simp add: quiet_registry_def)
  qed
qed

lemma quiet_filter: "quiet_registry reg \<Longrightarrow> quiet_registry (filter P reg)"
  by (induction reg) (auto simp add: quiet_registry_def)

lemma quiet_run_route_events:
  "quiet_registry reg \<Longrightarrow> quiet_registry (run_events (route_events w s reg' task) reg)"
  by (simp add: quiet_registry_def loads_route_events)

lemma reachable_quiet: "reachable st \<Longrightarrow> quiet_registry (agents st)"
proof (induction rule: reachable.induct)
  case reach_init
  show ?case by (simp add: init_orchestrator_def quiet_registry_def)
next
  case (reach_register st aid specs caps)
  have "current_load (new_agent aid specs caps) = 0"
    by (simp add: new_agent_def)
  then show ?case
    using reach_register by (simp add: register_agent_def quiet_dict_set)
next
  case (reach_unregister st aid)
  then show ?case by (simp add: unregister_agent_def quiet_filter)
next
  case (reach_submit st uuid ty specs sk prio)
  then show ?case by (simp add: submit_task_def Let_def)
next
  case (reach_set_strategy st s)
  then show ?case by (simp add: set_strategy_def)
next
  case (reach_route st w ref)
  then show ?case
    by (simp add: agents_route_task quiet_run_route_events)
next
  case (reach_process st w)
  show ?case
  proof (cases "task_queue st")
    case Nil
    then show ?thesis using reach_process by (simp add: process_next_def)
  next
    case (Cons ref q)
    then show ?thesis
      using reach_process
      by (simp add: process_next_def agents_route_task quiet_run_route_events)
  qed
qed

lemma loads_nonneg_in_prefix:
  assumes "quiet_registry reg" and "distinct ids"
  shows "list_all (\<lambda>a. 0 \<le> current_load a) (run_events (take k (schedule oc ids)) reg)"
proof -
  have base: "\<And>i. i < length reg \<Longrightarrow> current_load (reg ! i) = 0"
    using assms(1) by (simp add: quiet_registry_def list_all_length)
  have "\<And>i. i < length reg \<Longrightarrow>
          0 \<le> current_load (run_events (take k (schedule oc ids)) reg ! i)"
  proof -
    fix i assume i: "i < length reg"
    have "0 \<le> net_load (agent_id (reg ! i)) (take k (schedule oc ids))"
      using net_load_prefix_bounds [OF assms(2), of "agent_id (reg ! i)" k oc] by simp
    then show "0 \<le> current_load (run_events (take k (schedule oc ids)) reg ! i)"
      using base [OF i] i by (simp add: load_run_events)
  qed
  then show ?thesis
    by (simp add: list_all_length)
qed

lemma in_flight_nonneg:
  assumes "reachable st"
  shows "list_all (\<lambda>a. 0 \<le> current_load a) (in_flight w ref k st)"
proof -
  have q: "quiet_registry (agents st)"
    using assms by (rule reachable_quiet)
  obtain oc ids where ev: "route_events w (strategy st) (agents st) (tasks st ! ref)
                             = schedule oc ids"
    and ids: "ids = [] \<or> ids = dispatched (arith w) (strategy st) (agents st) (tasks st ! ref)"
    using route_events_schedule [of w "strategy st" "agents st" "tasks st ! ref"] by blast
  have d: "distinct ids"
    using q ids by (auto simp add: distinct_dispatched quiet_registry_def)
  show ?thesis
    unfolding in_flight_def ev by (rule loads_nonneg_in_prefix [OF q d])
qed

lemma no_capacity_not_suitable:
  "0 \<le> current_load a \<Longrightarrow> max_load a \<le> 0 \<Longrightarrow> \<not> is_suitable task a"
  by (simp add: is_suitable_def)

lemma no_capacity_not_returned:
  assumes "list_all (\<lambda>a. 0 \<le> current_load a) reg"
    and "find_suitable_agents fl reg task = Inr suitable"
    and "a \<in> set suitable"
  shows "0 < max_load a"
proof (rule ccontr)
  assume "\<not> 0 < max_load a"
  then have m: "max_load a \<le> 0" by simp
  have s: "a \<in> set reg \<and> is_suitable task a"
    using suitable_subset [OF assms(2)] assms(3) by simp
  then have "0 \<le> current_load a"
    using assms(1) by (simp add: list_all_iff)
  then show False
    using no_capacity_not_suitable [OF _ m, of task] s by simp
qed

lemma same_id_same_agent:
  "distinct (map agent_id reg) \<Longrightarrow> a \<in> set reg \<Longrightarrow> b \<in> set reg \<Longrightarrow>
   agent_id a = agent_id b \<Longrightarrow> a = b"
  by (meson distinct_map inj_on_def)

text \<open>
  C9, as the code has it. \<open>register_agent\<close> does not look at \<open>max_load\<close>: every
  registration returns \<open>True\<close> and stores the agent, with load 0 and the \<open>max_load\<close>
  requested (10 if none was). What keeps an agent with \<open>max_load \<le> 0\<close> from being used
  is the load filter of \<open>_find_suitable_agents\<close>: in every state the orchestrator
  reaches, between two operations and while the calls of a routing are in flight, no
  agent with \<open>max_load \<le> 0\<close> is among the agents that \<open>_find_suitable_agents\<close> returns,
  for any task; after a registration with \<open>max_load \<le> 0\<close> no agent of the registered id
  is.
\<close>

theorem register_agent_accepts_any_max_load:
  "fst (register_agent aid specs caps st) = True
   \<and> new_agent aid specs caps \<in> set (agents (snd (register_agent aid specs caps st)))
   \<and> current_load (new_agent aid specs caps) = 0
   \<and> max_load (new_agent aid specs caps) = (case cap_max_load caps of None \<Rightarrow> 10 | Some m \<Rightarrow> m)
   \<and> (reachable st \<longrightarrow> reachable (snd (register_agent aid specs caps st)))
   \<and> (reachable st \<longrightarrow>
        (\<forall>fl task suitable. find_suitable_agents fl (agents st) task = Inr suitable \<longrightarrow>
           (\<forall>a \<in> set suitable. 0 < max_load a)))
   \<and> (reachable st \<longrightarrow>
        (\<forall>fl task suitable.
           find_suitable_agents fl (in_flight w ref k st) task = Inr suitable \<longrightarrow>
           (\<forall>a \<in> set suitable. 0 < max_load a)))
   \<and> (reachable st \<and> max_load (new_agent aid specs caps) \<le> 0 \<longrightarrow>
        (\<forall>fl task suitable.
           find_suitable_agents fl (agents (snd (register_agent aid specs caps st))) task
             = Inr suitable \<longrightarrow>
           (\<forall>a \<in> set suitable. agent_id a \<noteq> aid)))"
proof -
  have basic: "fst (register_agent aid specs caps st) = True
     \<and> new_agent aid specs caps \<in> set (agents (snd (register_agent aid specs caps st)))
     \<and> current_load (new_agent aid specs caps) = 0
     \<and> max_load (new_agent aid specs caps) = (case cap_max_load caps of None \<Rightarrow> 10 | Some m \<Rightarrow> m)"
    by (simp add: register_agent_def dict_set_member) (simp add: new_agent_def)
  have step: "reachable st \<longrightarrow> reachable (snd (register_agent aid specs caps st))"
    by (simp add: reach_register)
  have rest: "reachable st \<longrightarrow>
        (\<forall>fl task suitable. find_suitable_agents fl (agents st) task = Inr suitable \<longrightarrow>
           (\<forall>a \<in> set suitable. 0 < max_load a))"
  proof (intro impI allI ballI)
    fix fl task suitable a
    assume r: "reachable st"
      and f: "find_suitable_agents fl (agents st) task = Inr suitable"
      and a: "a \<in> set suitable"
    have "list_all (\<lambda>a. 0 \<le> current_load a) (in_flight w ref 0 st)"
      using r by (rule in_flight_nonneg)
    then have "list_all (\<lambda>a. 0 \<le> current_load a) (agents st)"
      by (simp add: in_flight_def)
    then show "0 < max_load a"
      using f a by (rule no_capacity_not_returned)
  qed
  have flight: "reachable st \<longrightarrow>
        (\<forall>fl task suitable.
           find_suitable_agents fl (in_flight w ref k st) task = Inr suitable \<longrightarrow>
           (\<forall>a \<in> set suitable. 0 < max_load a))"
  proof (intro impI allI ballI)
    fix fl task suitable a
    assume r: "reachable st"
      and f: "find_suitable_agents fl (in_flight w ref k st) task = Inr suitable"
      and a: "a \<in> set suitable"
    have "list_all (\<lambda>a. 0 \<le> current_load a) (in_flight w ref k st)"
      using r by (rule in_flight_nonneg)
    then show "0 < max_load a"
      using f a by (rule no_capacity_not_returned)
  qed
  have byid: "reachable st \<and> max_load (new_agent aid specs caps) \<le> 0 \<longrightarrow>
        (\<forall>fl task suitable.
           find_suitable_agents fl (agents (snd (register_agent aid specs caps st))) task
             = Inr suitable \<longrightarrow>
           (\<forall>a \<in> set suitable. agent_id a \<noteq> aid))"
  proof (intro impI allI ballI)
    fix fl task suitable a
    assume h: "reachable st \<and> max_load (new_agent aid specs caps) \<le> 0"
      and f: "find_suitable_agents fl (agents (snd (register_agent aid specs caps st))) task
                = Inr suitable"
      and a: "a \<in> set suitable"
    define st' where "st' = snd (register_agent aid specs caps st)"
    have r': "reachable st'"
      using h by (simp add: st'_def reach_register)
    have q: "quiet_registry (agents st')"
      using r' by (rule reachable_quiet)
    have nn: "list_all (\<lambda>a. 0 \<le> current_load a) (agents st')"
      using q by (simp add: quiet_registry_def list_all_iff)
    have pos: "0 < max_load a"
      using nn f a unfolding st'_def by (rule no_capacity_not_returned)
    have ain: "a \<in> set (agents st')"
      using suitable_subset [OF f] a by (simp add: st'_def)
    have nin: "new_agent aid specs caps \<in> set (agents st')"
      by (simp add: st'_def register_agent_def dict_set_member)
    show "agent_id a \<noteq> aid"
    proof
      assume "agent_id a = aid"
      then have "agent_id a = agent_id (new_agent aid specs caps)"
        by (simp add: new_agent_def)
      then have "a = new_agent aid specs caps"
        using q ain nin by (auto simp add: quiet_registry_def intro: same_id_same_agent)
      then show False
        using pos h by simp
    qed
  qed
  show ?thesis
    using basic step rest flight byid by (elim conjE, intro conjI) assumption+
qed

lemma coordinator_reachable: "reachable (route_task calm_world 0 coordinator_orchestrator)"
  unfolding coordinator_orchestrator_def
  by (intro reach_route reach_submit reach_register reach_set_strategy reach_init)

theorem register_agent_accepts_any_max_load_witness:
  "reachable (route_task calm_world 0 coordinator_orchestrator)
   \<and> map agent_id (agents (route_task calm_world 0 coordinator_orchestrator)) = [''c1'']
   \<and> map max_load (agents (route_task calm_world 0 coordinator_orchestrator)) = [0]
   \<and> map performance_score (agents (route_task calm_world 0 coordinator_orchestrator)) = [0.51]
   \<and> find_suitable_agents exact_ops (agents (route_task calm_world 0 coordinator_orchestrator))
        (plain_task ''t2'') = Inr []
   \<and> fst (register_agent ''a1'' [''executor''] zero_capacity
            (route_task calm_world 0 coordinator_orchestrator)) = True
   \<and> map agent_id (agents (snd (register_agent ''a1'' [''executor''] zero_capacity
            (route_task calm_world 0 coordinator_orchestrator)))) = [''c1'', ''a1'']
   \<and> find_suitable_agents exact_ops
        (agents (snd (register_agent ''a1'' [''executor''] zero_capacity
            (route_task calm_world 0 coordinator_orchestrator))))
        (plain_task ''t2'') = Inr []"
proof -
  have ag: "agents (route_task calm_world 0 coordinator_orchestrator) =
              [\<lparr>agent_id = ''c1'', specializations = [''general''], performance_score = 0.51,
                availability = True, current_load = 0, max_load = 0, skills = []\<rparr>]"
    by (simp add: agents_route_task route_events_def dispatched_def find_coordinator_def
        coordinator_orchestrator_def zero_capacity_def submit_task_def register_agent_def
        set_strategy_def init_orchestrator_def new_agent_def Let_def schedule_def
        exec_begin_def exec_finish_def upd_agent_def update_score_def calm_world_def)
  have f1: "find_suitable_agents exact_ops
        (agents (route_task calm_world 0 coordinator_orchestrator)) (plain_task ''t2'') = Inr []"
    by (simp add: ag find_suitable_agents_def is_suitable_def)
  have f2: "find_suitable_agents exact_ops
        (agents (snd (register_agent ''a1'' [''executor''] zero_capacity
            (route_task calm_world 0 coordinator_orchestrator))))
        (plain_task ''t2'') = Inr []"
    by (simp add: ag register_agent_def new_agent_def zero_capacity_def
        find_suitable_agents_def is_suitable_def)
  have ids: "map agent_id (agents (snd (register_agent ''a1'' [''executor''] zero_capacity
            (route_task calm_world 0 coordinator_orchestrator)))) = [''c1'', ''a1'']"
    by (simp add: ag register_agent_def new_agent_def)
  note c = register_agent_accepts_any_max_load
    [of "''a1''" "[''executor'']" zero_capacity
        "route_task calm_world 0 coordinator_orchestrator"]
  have t: "fst (register_agent ''a1'' [''executor''] zero_capacity
            (route_task calm_world 0 coordinator_orchestrator)) = True"
    using c by blast
  show ?thesis
    using coordinator_reachable t f1 f2 ids by (simp add: ag)
qed

text \<open>
  The claim as stated fails: a registration with \<open>max_load = 0\<close> (and one with
  \<open>max_load = -1\<close>) returns \<open>True\<close> and the agent is in the registry.
\<close>

theorem registration_max_load_counterexample:
  "fst (register_agent ''a1'' [''executor'']
          \<lparr>cap_performance_score = None, cap_max_load = Some 0, cap_skills = None\<rparr>
          init_orchestrator) = True
   \<and> map agent_id (agents (snd (register_agent ''a1'' [''executor'']
          \<lparr>cap_performance_score = None, cap_max_load = Some 0, cap_skills = None\<rparr>
          init_orchestrator))) = [''a1'']
   \<and> fst (register_agent ''a2'' [''executor'']
          \<lparr>cap_performance_score = None, cap_max_load = Some (- 1), cap_skills = None\<rparr>
          init_orchestrator) = True
   \<and> map max_load (agents (snd (register_agent ''a2'' [''executor'']
          \<lparr>cap_performance_score = None, cap_max_load = Some (- 1), cap_skills = None\<rparr>
          init_orchestrator))) = [- 1]"
  by (simp add: register_agent_def init_orchestrator_def new_agent_def)

end
